theory Spec2Isabelle
  imports Main
begin

section \<open>VMnet: characters, C strings and descriptor streams\<close>

text \<open>
  The program is \<^verbatim>\<open>vmnet.c\<close>. A C \<^verbatim>\<open>char\<close> is a \<^typ>\<open>char\<close>, a fixed-size character
  array is a \<^typ>\<open>char list\<close> of that length, a C \<^verbatim>\<open>int\<close> is an \<^typ>\<open>int\<close> (the only
  arithmetic of the program is on descriptor numbers and on buffer lengths of at most
  16384, far from any overflow). Automatic variables that the C code does not initialise
  (\<^verbatim>\<open>sc\<close>, \<^verbatim>\<open>stdinbuf\<close>, \<^verbatim>\<open>stdoutbuf\<close> of \<^verbatim>\<open>main\<close>) start with the arbitrary contents
  the environment record gives them.
\<close>

definition NUL :: char where
  "NUL = CHR 0x00"

definition NL :: char where
  "NL = CHR 0x0A"

text \<open>The C string held by a character array: the characters before the first NUL.
  An array without NUL holds no string (reading it as one runs past its end).\<close>

definition terminated :: "char list \<Rightarrow> bool" where
  "terminated a = (NUL \<in> set a)"

definition cstr :: "char list \<Rightarrow> string" where
  "cstr a = takeWhile (\<lambda>c. c \<noteq> NUL) a"

text \<open>\<^verbatim>\<open>strncpy(dst, src, n)\<close> for \<open>n\<close> at most the size of \<open>dst\<close>: the string of \<open>src\<close>, cut
  after \<open>n\<close> characters, padded with NUL up to \<open>n\<close>; the rest of \<open>dst\<close> is untouched.\<close>

definition strncpy :: "char list \<Rightarrow> string \<Rightarrow> nat \<Rightarrow> char list" where
  "strncpy dst src n =
     (let s = cstr src in take n s @ replicate (n - length s) NUL @ drop n dst)"

text \<open>
  What a descriptor delivers to \<^verbatim>\<open>read\<close>: the bytes fed to it, in order, with \<open>Fail\<close>
  marking a \<^verbatim>\<open>read\<close> call that returns -1 at that position (an I/O error, or a signal
  interrupting the call). The end of the list is end-of-file. \<open>sys_read count k s\<close> is
  \<^verbatim>\<open>read(fd, buf, count)\<close> on the stream \<open>s\<close>: the return value, the bytes stored and the
  rest of the stream. On a stream with data, the kernel delivers at least one and at
  most \<open>count\<close> bytes; how many of them is the environment's choice \<open>k\<close>.
\<close>

datatype item = Byte char | Fail

fun is_Byte :: "item \<Rightarrow> bool" where
  "is_Byte (Byte c) = True"
| "is_Byte Fail = False"

fun the_Byte :: "item \<Rightarrow> char" where
  "the_Byte (Byte c) = c"
| "the_Byte Fail = NUL"

definition bytes_of :: "item list \<Rightarrow> string" where
  "bytes_of s = map the_Byte (filter is_Byte s)"

fun sys_read :: "nat \<Rightarrow> nat \<Rightarrow> item list \<Rightarrow> int \<times> string \<times> item list" where
  "sys_read count k [] = (0, [], [])"
| "sys_read count k (Fail # s) = (- 1, [], s)"
| "sys_read count k (Byte c # s) =
     (let d = take (min count (max 1 k)) (takeWhile is_Byte (Byte c # s))
      in (int (length d), map the_Byte d, drop (length d) (Byte c # s)))"

text \<open>\<^verbatim>\<open>write(fd, ptr, count)\<close> when the environment accepts \<open>a\<close> bytes (\<open>a \<le> 0\<close>: the call
  returns \<open>a\<close>, an error or nothing written): the kernel never takes more than \<open>count\<close>.\<close>

definition sys_write :: "int \<Rightarrow> int \<Rightarrow> int" where
  "sys_write a count = (if a \<le> 0 then a else min a count)"

section \<open>readline\<close>

text \<open>
  \<^verbatim>\<open>
  int readline(int fd, char *buf, int len)
  {
      int r, n = 0;
      if (len == 0) return 0;
      do {
          r = read(fd, &buf[n], 1);
          if (r <= 0) return n;
      } while (buf[n++] != '\n' && n < len);
      return n;
  }
  \<close>
  The model returns \<open>n\<close>, the array and the rest of the stream. Inside the loop
  \<open>n < len\<close> holds, so the store \<open>buf[n]\<close> is in range when \<open>buf\<close> has \<open>len\<close> elements.
\<close>

function readline_loop :: "item list \<Rightarrow> char list \<Rightarrow> nat \<Rightarrow> nat \<Rightarrow> nat \<times> char list \<times> item list" where
  "readline_loop s buf len n =
     (case sys_read 1 1 s of (r, d, s') \<Rightarrow>
        if r \<le> 0 then (n, buf, s')
        else let buf' = buf[n := hd d] in
          if buf' ! n \<noteq> NL \<and> Suc n < len then readline_loop s' buf' len (Suc n)
          else (Suc n, buf', s'))"
  by pat_completeness auto
termination
  by (relation "measure (\<lambda>(s, buf, len, n). len - n)") auto

declare readline_loop.simps [simp del]

definition readline :: "item list \<Rightarrow> char list \<Rightarrow> nat \<Rightarrow> nat \<times> char list \<times> item list" where
  "readline s buf len = (if len = 0 then (0, buf, s) else readline_loop s buf len 0)"

section \<open>The configuration store reader\<close>

text \<open>
  How the process ends: \<open>Exit c\<close> is \<^verbatim>\<open>exit(c)\<close> (or \<^verbatim>\<open>return c\<close> from \<^verbatim>\<open>main\<close>);
  \<open>Fault\<close> is an access outside an object (the behaviour of the C program is then
  undefined); \<open>Running\<close> is a process still in its relay loop when the events the
  environment provides are used up (it waits in \<^verbatim>\<open>select\<close>). Messages on stderr
  (\<^verbatim>\<open>perror\<close>, \<^verbatim>\<open>fprintf\<close>) are not part of the model.
\<close>

datatype status = Exit int | Fault | Running

text \<open>A \<^verbatim>\<open>cfgentry\<close>. Its four arrays are only ever written by \<^verbatim>\<open>sscanf\<close>, which
  terminates what it stores, and by \<^verbatim>\<open>cfg->script[0] = '\0'\<close>, so each field is kept as
  the string it holds.\<close>

record cfgentry =
  username :: string
  remoteip :: string
  localip :: string
  script :: string

text \<open>\<^verbatim>\<open>isspace\<close> in the C locale.\<close>

definition isspace :: "char \<Rightarrow> bool" where
  "isspace c = (c = CHR '' '' \<or> c = CHR 0x09 \<or> c = CHR 0x0A \<or> c = CHR 0x0B
                \<or> c = CHR 0x0C \<or> c = CHR 0x0D)"

text \<open>\<^verbatim>\<open>fgets(linebuffer, sz, fp)\<close> on the unread rest \<open>f\<close> of the file: at most
  \<open>sz - 1\<close> characters, ending after the first newline; \<open>None\<close> (the C \<^verbatim>\<open>NULL\<close>) at
  end of file.\<close>

definition fgets :: "nat \<Rightarrow> string \<Rightarrow> (string \<times> string) option" where
  "fgets sz f =
     (if f = [] then None
      else let pre = takeWhile (\<lambda>c. c \<noteq> NL) f;
               l = (if length pre < length f then pre @ [NL] else pre);
               line = take (sz - 1) l
           in Some (line, drop (length line) f))"

text \<open>One \<^verbatim>\<open>%ws\<close> conversion of \<^verbatim>\<open>sscanf\<close>: white space is skipped, then at most \<open>w\<close>
  characters that are not white space are stored. It fails at the end of the input.
  A format is a list of field widths: white space between conversions skips white space,
  which the next conversion does anyway. \<open>sscanf_r\<close> is the value \<^verbatim>\<open>sscanf\<close> returns:
  the number of fields stored, or \<^verbatim>\<open>EOF\<close> (-1) when the input ends before the first.\<close>

definition scan_s :: "nat \<Rightarrow> string \<Rightarrow> (string \<times> string) option" where
  "scan_s w s =
     (let s1 = dropWhile isspace s
      in if s1 = [] then None
         else let tok = take w (takeWhile (\<lambda>c. \<not> isspace c) s1)
              in Some (tok, drop (length tok) s1))"

fun sscanf :: "nat list \<Rightarrow> string \<Rightarrow> string list" where
  "sscanf [] s = []"
| "sscanf (w # ws) s =
     (case scan_s w s of None \<Rightarrow> [] | Some (tok, rest) \<Rightarrow> tok # sscanf ws rest)"

definition sscanf_r :: "string list \<Rightarrow> int" where
  "sscanf_r fs = (if fs = [] then - 1 else int (length fs))"

definition first_char :: "string \<Rightarrow> char" where
  "first_char s = (case s of [] \<Rightarrow> NUL | c # cs \<Rightarrow> c)"

text \<open>
  \<^verbatim>\<open>
  while (1) {
      if (fgets(linebuffer, sizeof(linebuffer), fp) == NULL) {
          fclose(fp); fp = NULL; return NULL;
      }
      cfg->script[0] = '\0';
      r = sscanf(linebuffer, "%127s %63s %63s %255s\n", cfg->username,
                 cfg->remoteip, cfg->localip, cfg->script);
      if (r >= 3 && cfg->username[0] != '#') return cfg;
  }
  \<close>
  \<open>next_entry f\<close> is this loop on the unread rest \<open>f\<close> of the open file: the entry
  returned and the new rest, or \<open>None\<close> at the end of the file. \<^verbatim>\<open>sscanf\<close> reads the
  line buffer as a C string, so a line stops at a NUL byte of the file. An entry that is
  returned has its first three fields stored by this very \<^verbatim>\<open>sscanf\<close> call, and its
  script is the fourth field or, with three fields, the empty string set just before.
\<close>

lemma fgets_shorter: "fgets (Suc (Suc n)) f = Some (line, f') \<Longrightarrow> length f' < length f"
  by (cases f) (auto simp: fgets_def Let_def split: if_splits)

function next_entry :: "string \<Rightarrow> (cfgentry \<times> string) option" where
  "next_entry f =
     (case fgets 1024 f of
        None \<Rightarrow> None
      | Some (linebuffer, f') \<Rightarrow>
          let fs = sscanf [127, 63, 63, 255] (cstr linebuffer); r = sscanf_r fs
          in if r \<ge> 3 \<and> first_char (fs ! 0) \<noteq> CHR ''#''
             then Some (\<lparr>username = fs ! 0, remoteip = fs ! 1, localip = fs ! 2,
                         script = (if r \<ge> 4 then fs ! 3 else [])\<rparr>, f')
             else next_entry f')"
  by pat_completeness auto
termination
proof (relation "measure length", goal_cases)
  case 1
  show ?case by simp
next
  case (2 f x2 linebuffer f' fs r)
  have "fgets (Suc (Suc 1022)) f = Some (linebuffer, f')"
    using 2 by simp
  from fgets_shorter[OF this] show ?case by simp
qed

text \<open>
  \<^verbatim>\<open>getcfgentry\<close> with its static \<^verbatim>\<open>fp\<close>: \<open>disk\<close> is the contents of \<^verbatim>\<open>CONFIG_FILE\<close>
  (\<open>None\<close>: it cannot be opened), \<open>fp\<close> the unread rest of the open file (\<open>None\<close>: not
  open, the C \<^verbatim>\<open>NULL\<close>). The file is opened on the first call and closed at its end; a
  file that cannot be opened is \<^verbatim>\<open>exit(1)\<close>.
\<close>

definition getcfgentry ::
    "string option \<Rightarrow> string option \<Rightarrow> status + (cfgentry option \<times> string option)" where
  "getcfgentry disk fp =
     (case (case fp of None \<Rightarrow> disk | Some f \<Rightarrow> Some f) of
        None \<Rightarrow> Inl (Exit 1)
      | Some f \<Rightarrow>
          (case next_entry f of
             None \<Rightarrow> Inr (None, None)
           | Some (cfg, f') \<Rightarrow> Inr (Some cfg, Some f')))"

lemma next_entry_shorter: "next_entry f = Some (cfg, f') \<Longrightarrow> length f' < length f"
proof (induction f rule: next_entry.induct)
  case (1 f)
  show ?case
  proof (cases "fgets 1024 f")
    case None
    with "1.prems" show ?thesis by simp
  next
    case (Some p)
    obtain linebuffer g where p: "p = (linebuffer, g)" by (cases p)
    have "fgets (Suc (Suc 1022)) f = Some (linebuffer, g)"
      using Some p by simp
    from fgets_shorter[OF this] have lt: "length g < length f" .
    show ?thesis
    proof (cases "next_entry f = next_entry g")
      case True
      with "1.prems" have "next_entry g = Some (cfg, f')" by simp
      with "1.IH"[OF Some p[symmetric] refl refl] True lt show ?thesis
        using "1.prems" Some p by (auto simp: Let_def split: if_splits)
    next
      case False
      with "1.prems" Some p lt show ?thesis
        by (auto simp: Let_def split: if_splits)
    qed
  qed
qed

declare next_entry.simps [simp del]

text \<open>\<^verbatim>\<open>!strcmp(a, b)\<close>: the two arrays hold the same string.\<close>

definition streq :: "char list \<Rightarrow> char list \<Rightarrow> bool" where
  "streq a b = (cstr a = cstr b)"

definition matches :: "char list \<Rightarrow> char list \<Rightarrow> cfgentry \<Rightarrow> bool" where
  "matches u r cfg = (streq u (username cfg) \<and> streq r (remoteip cfg))"

text \<open>
  \<^verbatim>\<open>
  cfgentry *getcfgbyid(cfgentry *cfg, char *username, char *remoteip)
  {
      while (getcfgentry(cfg) != NULL) {
          if (!strcmp(username, cfg->username) && !strcmp(remoteip, cfg->remoteip))
              return cfg;
      }
      return NULL;
  }
  \<close>
  The result is the entry found (\<open>None\<close> for \<^verbatim>\<open>NULL\<close>) and the state of \<^verbatim>\<open>fp\<close>.
\<close>

function getcfgbyid ::
    "string option \<Rightarrow> string option \<Rightarrow> char list \<Rightarrow> char list
      \<Rightarrow> status + (cfgentry option \<times> string option)" where
  "getcfgbyid disk fp u r =
     (case getcfgentry disk fp of
        Inl st \<Rightarrow> Inl st
      | Inr (None, fp') \<Rightarrow> Inr (None, fp')
      | Inr (Some cfg, fp') \<Rightarrow>
          if matches u r cfg then Inr (Some cfg, fp') else getcfgbyid disk fp' u r)"
  by pat_completeness auto
termination
proof (relation "measure (\<lambda>(disk, fp, u, r).
          case fp of Some f \<Rightarrow> length f
          | None \<Rightarrow> Suc (case disk of None \<Rightarrow> 0 | Some d \<Rightarrow> length d))", goal_cases)
  case 1
  show ?case by simp
next
  case 2
  then show ?case
    by (auto simp: getcfgentry_def less_Suc_eq_le
             split: option.splits dest!: next_entry_shorter)
qed

text \<open>The records of a configuration file, in file order: what successive calls of the
  reader return from the start of the file to its end.\<close>

function entries :: "string \<Rightarrow> cfgentry list" where
  "entries f = (case next_entry f of None \<Rightarrow> [] | Some (cfg, f') \<Rightarrow> cfg # entries f')"
  by pat_completeness auto
termination
  by (relation "measure length") (auto dest: next_entry_shorter)

declare getcfgbyid.simps [simp del]

declare entries.simps [simp del]

section \<open>The session, the environment and what the process does to it\<close>

text \<open>\<^verbatim>\<open>struct slipconnection\<close>, its character arrays as lists of 128, 64, 64 and 256
  characters.\<close>

record slipconn =
  masterfd :: int
  slavefd :: int
  unit :: int
  oldldisc :: int
  username :: "char list"
  remoteip :: "char list"
  localip :: "char list"
  script :: "char list"

definition sized :: "slipconn \<Rightarrow> bool" where
  "sized sc = (length (username sc) = 128 \<and> length (remoteip sc) = 64
               \<and> length (localip sc) = 64 \<and> length (script sc) = 256)"

text \<open>\<^verbatim>\<open>struct buf\<close>; \<open>ptr\<close> is the offset of the C pointer into \<open>data\<close>.\<close>

record buf =
  len :: int
  ptr :: nat
  data :: "char list"

text \<open>What \<^verbatim>\<open>select\<close> answers in one turn of the relay loop (\<open>Sel_err\<close>: it returns -1;
  \<open>Sel_ready R W\<close>: the descriptors of \<open>R\<close> are readable and those of \<open>W\<close> writable), what
  the system calls of that turn answer if they are made (how many bytes a \<^verbatim>\<open>read\<close> may
  deliver, how many a \<^verbatim>\<open>write\<close> accepts), and whether a signal was caught during the
  turn (\<^verbatim>\<open>sig_catch\<close> sets \<^verbatim>\<open>go = 0\<close>).\<close>

datatype select_r = Sel_err | Sel_ready "int set" "int set"

record event =
  sel :: select_r
  rd_stdin :: nat
  rd_link :: nat
  wr_link :: int
  wr_stdout :: int
  signal :: bool

text \<open>
  Everything outside the program. \<open>IFCONFIG\<close> is the macro of \<^verbatim>\<open>config.h\<close>, which is not
  among the sources, and \<open>cfg_file\<close> the contents of the file its \<^verbatim>\<open>CONFIG_FILE\<close> names
  (\<open>None\<close>: \<^verbatim>\<open>fopen\<close> fails). \<open>pw_name\<close> is the name \<^verbatim>\<open>getpwuid(getuid())\<close> gives (\<open>None\<close>:
  it returns \<^verbatim>\<open>NULL\<close>). \<open>host_in\<close> is what descriptor 0 delivers and \<open>link_in\<close> what the
  master side of the pseudo-terminal delivers. The \<open>_r\<close> fields are the values the
  library and system calls return, an \<^verbatim>\<open>ioctl\<close> that reads a value returning it beside
  its result. \<open>go_init\<close> is \<^verbatim>\<open>go\<close> when the relay loop is first reached (false when a
  signal was caught before).
\<close>

record env =
  IFCONFIG :: string
  pw_name :: "string option"
  cfg_file :: "string option"
  host_in :: "item list"
  link_in :: "item list"
  sc_init :: slipconn
  stdinbuf_init :: buf
  stdoutbuf_init :: buf
  getpt_r :: int
  grantpt_r :: int
  unlockpt_r :: int
  ptsname_r_r :: int
  open_r :: int
  tcgetattr_r :: int
  tcsetattr_r :: int
  tiocgetd_old_r :: "int \<times> int"
  tiocsetd_r :: int
  siocsifencap_r :: int
  tiocgetd_new_r :: "int \<times> int"
  siocgifencap_r :: "int \<times> int"
  tiocsetd_restore_r :: int
  go_init :: bool
  events :: "event list"

text \<open>The effects of the process on its surroundings, in the order they happen. A
  \<open>System\<close> action records the function that called \<^verbatim>\<open>system\<close>.\<close>

datatype caller = Interface_start | Interface_stop

datatype action =
    Open int
  | Close int
  | Tiocsetd int int
  | Siocsifencap int int
  | System caller string
  | Read int string
  | Write int string

text \<open>The line discipline number \<^verbatim>\<open>N_SLIP\<close> of the system headers (1 on Linux).\<close>

definition N_SLIP :: int where
  "N_SLIP = 1"

section \<open>login\<close>

text \<open>
  \<^verbatim>\<open>
  pw = getpwuid(getuid());
  strncpy(sc->username, pw->pw_name, sizeof(sc->username)-1);
  n = readline(0, sc->remoteip, sizeof(sc->remoteip));
  sc->remoteip[n-1] = '\0';	/* strip newline */
  if (getcfgbyid(&cfg, sc->username, sc->remoteip) == NULL) { ...; exit(1); }
  strncpy(sc->localip, cfg.localip, sizeof(sc->localip));
  strncpy(sc->script, cfg.script, sizeof(sc->script));
  \<close>
  The result is the session and the rest of the host stream. Three accesses can fall
  outside their object: \<^verbatim>\<open>pw->pw_name\<close> when \<^verbatim>\<open>pw\<close> is \<^verbatim>\<open>NULL\<close>, the store to
  \<^verbatim>\<open>sc->remoteip[n-1]\<close> when \<open>n = 0\<close>, and reading \<^verbatim>\<open>sc->username\<close> as a string (in
  \<^verbatim>\<open>strcmp\<close>, or in the message when no record is found) when the array holds no NUL:
  \<^verbatim>\<open>strncpy\<close> writes 127 of its 128 characters. A configuration file that cannot be
  opened ends the process before the user name is read.
\<close>

definition login :: "env \<Rightarrow> slipconn \<Rightarrow> status + (slipconn \<times> item list)" where
  "login e sc =
     (case pw_name e of
        None \<Rightarrow> Inl Fault
      | Some name \<Rightarrow>
          let sc1 = sc\<lparr>username := strncpy (username sc) name 127\<rparr>
          in (case readline (host_in e) (remoteip sc1) 64 of (n, b, s') \<Rightarrow>
            if n = 0 then Inl Fault
            else let sc2 = sc1\<lparr>remoteip := b[n - 1 := NUL]\<rparr>
              in (case getcfgbyid (cfg_file e) None (username sc2) (remoteip sc2) of
                    Inl st \<Rightarrow> Inl st
                  | Inr (found, fp) \<Rightarrow>
                      if \<not> terminated (username sc2) then Inl Fault
                      else (case found of
                              None \<Rightarrow> Inl (Exit 1)
                            | Some cfg \<Rightarrow>
                                Inr (sc2\<lparr>localip := strncpy (localip sc2) (cfgentry.localip cfg) 64,
                                         script := strncpy (script sc2) (cfgentry.script cfg) 256\<rparr>,
                                     s')))))"

section \<open>Link establishment and teardown\<close>

text \<open>\<^verbatim>\<open>open_pty_pair(&masterp, &slavep)\<close>: the value returned, the two output variables
  and the descriptors opened and closed. \<^verbatim>\<open>unlockpt\<close> is only called when \<^verbatim>\<open>grantpt\<close>
  succeeded, which changes no result.\<close>

definition open_pty_pair :: "env \<Rightarrow> int \<Rightarrow> int \<Rightarrow> int \<times> int \<times> int \<times> action list" where
  "open_pty_pair e masterp slavep =
     (let master = getpt_r e in
      if master < 0 then (0, masterp, slavep, [])
      else if grantpt_r e < 0 \<or> unlockpt_r e < 0
        then (0, masterp, slavep, [Open master, Close master])
      else if ptsname_r_r e < 0
        then (0, masterp, slavep, [Open master, Close master])
      else let slave = open_r e in
        if slave < 0 then (0, masterp, slavep, [Open master, Close master])
        else (1, master, slave, [Open master, Open slave]))"

text \<open>\<^verbatim>\<open>tty_setup\<close>: a failing \<^verbatim>\<open>tcgetattr\<close> is only reported, a failing \<^verbatim>\<open>tcsetattr\<close> is
  \<^verbatim>\<open>exit(1)\<close>. The attributes themselves are not modelled.\<close>

definition tty_setup :: "env \<Rightarrow> slipconn \<Rightarrow> status option" where
  "tty_setup e sc = (if tcsetattr_r e < 0 then Some (Exit 1) else None)"

text \<open>
  \<^verbatim>\<open>
  int disc, sencap = 0;
  if (ioctl(sc->slavefd, TIOCGETD, &sc->oldldisc) < 0) exit(1);
  disc = N_SLIP;
  if ((sc->unit = ioctl(sc->slavefd, TIOCSETD, &disc)) < 0) exit(1);
  if (ioctl(sc->slavefd, SIOCSIFENCAP, &sencap) < 0) exit(1);
  if (ioctl(sc->slavefd, TIOCGETD, &disc) < 0) exit(1);
  if (ioctl(sc->slavefd, SIOCGIFENCAP, &sencap) < 0) exit(1);
  if (disc != N_SLIP || sencap != 0) exit(1);
  \<close>
\<close>

definition slip_setup :: "env \<Rightarrow> slipconn \<Rightarrow> action list \<times> (status + slipconn)" where
  "slip_setup e sc =
     (let sencap = 0 in
      if fst (tiocgetd_old_r e) < 0 then ([], Inl (Exit 1))
      else let sc1 = sc\<lparr>oldldisc := snd (tiocgetd_old_r e)\<rparr>;
               disc = N_SLIP;
               sc2 = sc1\<lparr>unit := tiocsetd_r e\<rparr>;
               l1 = [Tiocsetd (slavefd sc) disc]
        in if unit sc2 < 0 then (l1, Inl (Exit 1))
           else let l2 = l1 @ [Siocsifencap (slavefd sc) sencap]
             in if siocsifencap_r e < 0 then (l2, Inl (Exit 1))
                else if fst (tiocgetd_new_r e) < 0 then (l2, Inl (Exit 1))
                else let disc = snd (tiocgetd_new_r e)
                  in if fst (siocgifencap_r e) < 0 then (l2, Inl (Exit 1))
                     else let sencap = snd (siocgifencap_r e)
                       in if disc \<noteq> N_SLIP \<or> sencap \<noteq> 0 then (l2, Inl (Exit 1))
                          else (l2, Inr sc2))"

text \<open>\<^verbatim>\<open>%d\<close> of \<^verbatim>\<open>sprintf\<close>.\<close>

fun show_nat :: "nat \<Rightarrow> string" where
  "show_nat n =
     (if n < 10 then [''0123456789'' ! n]
      else show_nat (n div 10) @ [''0123456789'' ! (n mod 10)])"

declare show_nat.simps [simp del]

definition show_int :: "int \<Rightarrow> string" where
  "show_int i = (if i < 0 then CHR ''-'' # show_nat (nat (- i)) else show_nat (nat i))"

text \<open>
  \<^verbatim>\<open>
  sprintf(buf, "%s sl%d %s pointopoint %s netmask 255.255.255.255 mtu 1500",
          IFCONFIG, sc->unit, sc->localip, sc->remoteip);
  if (*sc->script)
      sprintf(buf+strlen(buf), " && %s up '%s' '%s'", sc->script, sc->remoteip, sc->localip);
  system(buf);
  \<close>
  The command is the string \<^verbatim>\<open>sprintf\<close> builds; the 1024 characters of \<^verbatim>\<open>buf\<close> are
  not modelled. \<open>fmt_start\<close> is the format applied to the unit number and to the
  strings of \<^verbatim>\<open>sc->localip\<close>, \<^verbatim>\<open>sc->remoteip\<close> and \<^verbatim>\<open>sc->script\<close>; \<^verbatim>\<open>*sc->script\<close> is
  non-zero when the script string is not empty.
\<close>

definition fmt_start :: "string \<Rightarrow> int \<Rightarrow> string \<Rightarrow> string \<Rightarrow> string \<Rightarrow> string" where
  "fmt_start ifconfig u lip rip scr =
     ifconfig @ '' sl'' @ show_int u @ '' '' @ lip @ '' pointopoint '' @ rip
       @ '' netmask 255.255.255.255 mtu 1500''
       @ (if scr \<noteq> []
          then '' && '' @ scr @ '' up '' @ [CHR 0x27] @ rip @ [CHR 0x27] @ '' ''
                 @ [CHR 0x27] @ lip @ [CHR 0x27]
          else [])"

definition start_cmd :: "string \<Rightarrow> slipconn \<Rightarrow> string" where
  "start_cmd ifconfig sc =
     fmt_start ifconfig (unit sc) (cstr (localip sc)) (cstr (remoteip sc)) (cstr (script sc))"

definition interface_start :: "env \<Rightarrow> slipconn \<Rightarrow> action list" where
  "interface_start e sc = [System Interface_start (start_cmd (IFCONFIG e) sc)]"

text \<open>\<^verbatim>\<open>slip_start\<close>: \<^verbatim>\<open>open_pty_pair\<close> (\<^verbatim>\<open>exit(1)\<close> when it returns 0), \<^verbatim>\<open>tty_setup\<close>,
  \<^verbatim>\<open>slip_setup\<close>, \<^verbatim>\<open>interface_start\<close>.\<close>

definition slip_start :: "env \<Rightarrow> slipconn \<Rightarrow> action list \<times> (status + slipconn)" where
  "slip_start e sc =
     (case open_pty_pair e (masterfd sc) (slavefd sc) of (ok, m, s, l0) \<Rightarrow>
        if ok = 0 then (l0, Inl (Exit 1))
        else let sc1 = sc\<lparr>masterfd := m, slavefd := s\<rparr>
          in (case tty_setup e sc1 of
                Some st \<Rightarrow> (l0, Inl st)
              | None \<Rightarrow>
                  (case slip_setup e sc1 of
                     (l1, Inl st) \<Rightarrow> (l0 @ l1, Inl st)
                   | (l1, Inr sc2) \<Rightarrow> (l0 @ l1 @ interface_start e sc2, Inr sc2))))"

text \<open>
  \<^verbatim>\<open>
  sprintf(buf, "%s sl%d down", IFCONFIG, sc->unit);
  if (*sc->script)
      sprintf(buf+strlen(buf), " && %s down '%s' '%s'", sc->script, sc->remoteip, sc->localip);
  system(buf);
  \<close>
\<close>

definition fmt_stop :: "string \<Rightarrow> int \<Rightarrow> string \<Rightarrow> string \<Rightarrow> string \<Rightarrow> string" where
  "fmt_stop ifconfig u lip rip scr =
     ifconfig @ '' sl'' @ show_int u @ '' down''
       @ (if scr \<noteq> []
          then '' && '' @ scr @ '' down '' @ [CHR 0x27] @ rip @ [CHR 0x27] @ '' ''
                 @ [CHR 0x27] @ lip @ [CHR 0x27]
          else [])"

definition stop_cmd :: "string \<Rightarrow> slipconn \<Rightarrow> string" where
  "stop_cmd ifconfig sc =
     fmt_stop ifconfig (unit sc) (cstr (localip sc)) (cstr (remoteip sc)) (cstr (script sc))"

definition interface_stop :: "env \<Rightarrow> slipconn \<Rightarrow> action list" where
  "interface_stop e sc = [System Interface_stop (stop_cmd (IFCONFIG e) sc)]"

text \<open>\<^verbatim>\<open>slip_release\<close>: the old line discipline is set again (a failure is only
  reported) and both descriptors are closed.\<close>

definition slip_release :: "env \<Rightarrow> slipconn \<Rightarrow> action list" where
  "slip_release e sc =
     [Tiocsetd (slavefd sc) (oldldisc sc), Close (masterfd sc), Close (slavefd sc)]"

definition slip_stop :: "env \<Rightarrow> slipconn \<Rightarrow> action list" where
  "slip_stop e sc = interface_stop e sc @ slip_release e sc"

section \<open>The relay engine\<close>

text \<open>
  \<^verbatim>\<open>
  buf->len = read(fd, buf->data, sizeof(buf->data));
  if (buf->len < 0) { perror("read"); slip_stop(sc); exit(1); }
  buf->ptr = buf->data;
  \<close>
  \<open>s\<close> is what the descriptor still has to deliver and \<open>k\<close> the environment's choice for
  this call. The result is what happened, and either the status the process exits with
  or the buffer and the rest of the stream.
\<close>

definition bufread ::
    "env \<Rightarrow> slipconn \<Rightarrow> int \<Rightarrow> buf \<Rightarrow> item list \<Rightarrow> nat
      \<Rightarrow> action list \<times> (status + buf \<times> item list)" where
  "bufread e sc fd b s k =
     (case sys_read 16384 k s of (r, d, s') \<Rightarrow>
        let b1 = b\<lparr>len := r, data := d @ drop (length d) (data b)\<rparr>
        in if len b1 < 0 then (slip_stop e sc, Inl (Exit 1))
           else ([Read fd d], Inr (b1\<lparr>ptr := 0\<rparr>, s')))"

text \<open>
  \<^verbatim>\<open>
  r = write(fd, buf->ptr, buf->len);
  if (r <= 0) { perror("write"); slip_stop(sc); exit(1); }
  buf->len -= r;
  buf->ptr += r;
  \<close>
  \<open>a\<close> is the number of bytes the environment accepts in this call.
\<close>

definition bufwrite ::
    "env \<Rightarrow> slipconn \<Rightarrow> int \<Rightarrow> buf \<Rightarrow> int \<Rightarrow> action list \<times> (status + buf)" where
  "bufwrite e sc fd b a =
     (let r = sys_write a (len b)
      in if r \<le> 0 then (slip_stop e sc, Inl (Exit 1))
         else ([Write fd (take (nat r) (drop (ptr b) (data b)))],
               Inr (b\<lparr>len := len b - r, ptr := ptr b + nat r\<rparr>)))"

text \<open>The variables of the loop in \<^verbatim>\<open>main\<close>: the two registered descriptor sets, the
  two buffers, what the two input descriptors still have to deliver, and what the loop
  has done so far.\<close>

record relay =
  rfds :: "int set"
  wfds :: "int set"
  stdinbuf :: buf
  stdoutbuf :: buf
  hin :: "item list"
  lin :: "item list"
  rlog :: "action list"

text \<open>A step of the loop body gives \<open>(Some c, st)\<close> when the process exits there and
  \<open>(None, st)\<close> when it goes on; \<open>then_do\<close> runs the next step in the second case.\<close>

definition then_do ::
    "status option \<times> relay \<Rightarrow> (relay \<Rightarrow> status option \<times> relay) \<Rightarrow> status option \<times> relay" where
  "then_do x f = (case x of (None, st) \<Rightarrow> f st | (Some c, st) \<Rightarrow> (Some c, st))"

text \<open>
  \<^verbatim>\<open>
  if (FD_ISSET(0, &readfds)) {
      bufread(&sc, 0, &stdinbuf);
      if (stdinbuf.len == 0) { slip_stop(&sc); exit(0); }
      if (stdinbuf.len) { FD_SET(sc.masterfd, &wfds); FD_CLR(0, &rfds); }
  }
  \<close>
\<close>

definition stdin_readable :: "env \<Rightarrow> slipconn \<Rightarrow> event \<Rightarrow> int set \<Rightarrow> relay \<Rightarrow> status option \<times> relay" where
  "stdin_readable e sc ev readfds st =
     (if 0 \<in> readfds then
        (case bufread e sc 0 (stdinbuf st) (hin st) (rd_stdin ev) of
           (l, Inl c) \<Rightarrow> (Some c, st\<lparr>rlog := rlog st @ l\<rparr>)
         | (l, Inr (b, s')) \<Rightarrow>
             let st1 = st\<lparr>stdinbuf := b, hin := s', rlog := rlog st @ l\<rparr>
             in if len b = 0
                then (Some (Exit 0), st1\<lparr>rlog := rlog st1 @ slip_stop e sc\<rparr>)
                else (None, st1\<lparr>wfds := insert (masterfd sc) (wfds st1),
                                 rfds := rfds st1 - {0}\<rparr>))
      else (None, st))"

text \<open>
  \<^verbatim>\<open>
  if (FD_ISSET(sc.masterfd, &readfds)) {
      bufread(&sc, sc.masterfd, &stdoutbuf);
      if (stdoutbuf.len) { FD_SET(1, &wfds); FD_CLR(sc.masterfd, &rfds); }
  }
  \<close>
\<close>

definition link_readable :: "env \<Rightarrow> slipconn \<Rightarrow> event \<Rightarrow> int set \<Rightarrow> relay \<Rightarrow> status option \<times> relay" where
  "link_readable e sc ev readfds st =
     (if masterfd sc \<in> readfds then
        (case bufread e sc (masterfd sc) (stdoutbuf st) (lin st) (rd_link ev) of
           (l, Inl c) \<Rightarrow> (Some c, st\<lparr>rlog := rlog st @ l\<rparr>)
         | (l, Inr (b, s')) \<Rightarrow>
             let st1 = st\<lparr>stdoutbuf := b, lin := s', rlog := rlog st @ l\<rparr>
             in if len b \<noteq> 0
                then (None, st1\<lparr>wfds := insert 1 (wfds st1),
                                 rfds := rfds st1 - {masterfd sc}\<rparr>)
                else (None, st1))
      else (None, st))"

text \<open>
  \<^verbatim>\<open>
  if (FD_ISSET(sc.masterfd, &writefds)) {
      bufwrite(&sc, sc.masterfd, &stdinbuf);
      if (stdinbuf.len == 0) { FD_SET(0, &rfds); FD_CLR(sc.masterfd, &wfds); }
  }
  \<close>
\<close>

definition link_writable :: "env \<Rightarrow> slipconn \<Rightarrow> event \<Rightarrow> int set \<Rightarrow> relay \<Rightarrow> status option \<times> relay" where
  "link_writable e sc ev writefds st =
     (if masterfd sc \<in> writefds then
        (case bufwrite e sc (masterfd sc) (stdinbuf st) (wr_link ev) of
           (l, Inl c) \<Rightarrow> (Some c, st\<lparr>rlog := rlog st @ l\<rparr>)
         | (l, Inr b) \<Rightarrow>
             let st1 = st\<lparr>stdinbuf := b, rlog := rlog st @ l\<rparr>
             in if len b = 0
                then (None, st1\<lparr>rfds := insert 0 (rfds st1),
                                 wfds := wfds st1 - {masterfd sc}\<rparr>)
                else (None, st1))
      else (None, st))"

text \<open>
  \<^verbatim>\<open>
  if (FD_ISSET(1, &writefds)) {
      bufwrite(&sc, 1, &stdoutbuf);
      if (stdoutbuf.len == 0) { FD_SET(sc.masterfd, &rfds); FD_CLR(1, &wfds); }
  }
  \<close>
\<close>

definition stdout_writable :: "env \<Rightarrow> slipconn \<Rightarrow> event \<Rightarrow> int set \<Rightarrow> relay \<Rightarrow> status option \<times> relay" where
  "stdout_writable e sc ev writefds st =
     (if 1 \<in> writefds then
        (case bufwrite e sc 1 (stdoutbuf st) (wr_stdout ev) of
           (l, Inl c) \<Rightarrow> (Some c, st\<lparr>rlog := rlog st @ l\<rparr>)
         | (l, Inr b) \<Rightarrow>
             let st1 = st\<lparr>stdoutbuf := b, rlog := rlog st @ l\<rparr>
             in if len b = 0
                then (None, st1\<lparr>rfds := insert (masterfd sc) (rfds st1),
                                 wfds := wfds st1 - {1}\<rparr>)
                else (None, st1))
      else (None, st))"

text \<open>
  One turn of the loop:
  \<^verbatim>\<open>
  readfds = rfds; writefds = wfds;
  n = select(sc.masterfd+1, &readfds, &writefds, 0, 0);
  if (n > 0) { ... the four steps above ... }
  \<close>
  \<^verbatim>\<open>select\<close> leaves in each set the registered descriptors below \<^verbatim>\<open>sc.masterfd+1\<close> that
  are ready. When it returns -1 the body is skipped; when it returns 0 both sets are
  empty and none of the four steps does anything, as in the model.
\<close>

definition readfds_of :: "slipconn \<Rightarrow> int set \<Rightarrow> relay \<Rightarrow> int set" where
  "readfds_of sc R st = Set.filter (\<lambda>fd. fd < masterfd sc + 1) (rfds st \<inter> R)"

definition writefds_of :: "slipconn \<Rightarrow> int set \<Rightarrow> relay \<Rightarrow> int set" where
  "writefds_of sc W st = Set.filter (\<lambda>fd. fd < masterfd sc + 1) (wfds st \<inter> W)"

definition relay_iter :: "env \<Rightarrow> slipconn \<Rightarrow> event \<Rightarrow> relay \<Rightarrow> status option \<times> relay" where
  "relay_iter e sc ev st =
     (case sel ev of
        Sel_err \<Rightarrow> (None, st)
      | Sel_ready R W \<Rightarrow>
          let readfds = readfds_of sc R st; writefds = writefds_of sc W st
          in then_do (then_do (then_do (stdin_readable e sc ev readfds st)
                                       (link_readable e sc ev readfds))
                              (link_writable e sc ev writefds))
                     (stdout_writable e sc ev writefds))"

text \<open>
  \<^verbatim>\<open>while (go) { ... } slip_stop(&sc); return 0;\<close>
  The loop runs one turn for each event of the environment. A signal caught during a
  turn ends the loop at its next test of \<^verbatim>\<open>go\<close>.
\<close>

fun relay_loop :: "env \<Rightarrow> slipconn \<Rightarrow> bool \<Rightarrow> event list \<Rightarrow> relay \<Rightarrow> status \<times> relay" where
  "relay_loop e sc False evs st = (Exit 0, st\<lparr>rlog := rlog st @ slip_stop e sc\<rparr>)"
| "relay_loop e sc True [] st = (Running, st)"
| "relay_loop e sc True (ev # evs) st =
     (case relay_iter e sc ev st of
        (Some c, st') \<Rightarrow> (c, st')
      | (None, st') \<Rightarrow> relay_loop e sc (\<not> signal ev) evs st')"

text \<open>
  \<^verbatim>\<open>
  sig_setup(); login(&sc); setuid(0); slip_start(&sc);
  FD_ZERO(&rfds); FD_SET(sc.masterfd, &rfds); FD_SET(0, &rfds); FD_ZERO(&wfds);
  while (go) ...
  \<close>
  The result of a run is how it ends and what it did.
\<close>

definition relay_init :: "env \<Rightarrow> slipconn \<Rightarrow> item list \<Rightarrow> relay" where
  "relay_init e sc s =
     \<lparr>rfds = insert 0 (insert (masterfd sc) {}), wfds = {},
      stdinbuf = stdinbuf_init e, stdoutbuf = stdoutbuf_init e,
      hin = s, lin = link_in e, rlog = []\<rparr>"

definition main :: "env \<Rightarrow> status \<times> action list" where
  "main e =
     (case login e (sc_init e) of
        Inl c \<Rightarrow> (c, [])
      | Inr (sc1, s) \<Rightarrow>
          (case slip_start e sc1 of
             (l, Inl c) \<Rightarrow> (c, l)
           | (l, Inr sc2) \<Rightarrow>
               (case relay_loop e sc2 (go_init e) (events e) (relay_init e sc2 s) of
                  (c, st) \<Rightarrow> (c, l @ rlog st))))"

section \<open>Properties of C strings and of readline\<close>

lemma cstr_id: "NUL \<notin> set s \<Longrightarrow> cstr s = s"
  by (induction s) (auto simp: cstr_def)

lemma cstr_append: "cstr (s @ NUL # t) = cstr s"
  by (induction s) (auto simp: cstr_def)

lemma sys_read_one [simp]: "sys_read 1 k (Byte c # s) = (1, [c], s)"
  by (simp add: Let_def)

lemma readline_loop_Nil: "readline_loop [] buf ln n = (n, buf, [])"
  by (simp add: readline_loop.simps)

lemma readline_loop_Fail: "readline_loop (Fail # s) buf ln n = (n, buf, s)"
  by (simp add: readline_loop.simps)

lemma readline_loop_Byte:
  "readline_loop (Byte c # s) buf ln n =
     (if buf[n := c] ! n \<noteq> NL \<and> Suc n < ln then readline_loop s (buf[n := c]) ln (Suc n)
      else (Suc n, buf[n := c], s))"
  by (subst readline_loop.simps) (simp add: Let_def)

lemma readline_loop_NL:
  "n < length buf \<Longrightarrow> readline_loop (Byte NL # s) buf ln n = (Suc n, buf[n := NL], s)"
  by (simp add: readline_loop_Byte)

lemma readline_loop_line:
  "NL \<notin> set line \<Longrightarrow> n + length line < ln \<Longrightarrow> length buf = ln \<Longrightarrow>
   readline_loop (map Byte (line @ [NL]) @ rest) buf ln n =
     (Suc (n + length line), take n buf @ line @ NL # drop (Suc (n + length line)) buf, rest)"
proof (induction line arbitrary: n buf)
  case Nil
  then show ?case
    by (simp add: readline_loop_NL upd_conv_take_nth_drop)
next
  case (Cons c line)
  from Cons.prems have lt: "Suc n < ln" "n < length buf" "c \<noteq> NL" by auto
  have "readline_loop (map Byte ((c # line) @ [NL]) @ rest) buf ln n =
        readline_loop (map Byte (line @ [NL]) @ rest) (buf[n := c]) ln (Suc n)"
    using lt by (simp add: readline_loop_Byte)
  also have "\<dots> = (Suc (Suc n + length line),
      take (Suc n) (buf[n := c]) @ line @ NL # drop (Suc (Suc n + length line)) (buf[n := c]), rest)"
    using Cons.prems by (intro Cons.IH) auto
  also have "take (Suc n) (buf[n := c]) = take n buf @ [c]"
    using Cons.prems by (simp add: take_Suc_conv_app_nth)
  finally show ?case by simp
qed

lemma readline_loop_cut:
  "NL \<notin> set line \<Longrightarrow> line \<noteq> [] \<Longrightarrow> n + length line = ln \<Longrightarrow> length buf = ln \<Longrightarrow>
   readline_loop (map Byte line @ rest) buf ln n = (ln, take n buf @ line, rest)"
proof (induction line arbitrary: n buf)
  case Nil
  then show ?case by simp
next
  case (Cons c line)
  show ?case
  proof (cases "line = []")
    case True
    with Cons.prems show ?thesis
      by (simp add: readline_loop_Byte upd_conv_take_nth_drop)
  next
    case False
    from False have "0 < length line" by simp
    with Cons.prems have lt: "Suc n < ln" "n < length buf" "c \<noteq> NL" by auto
    have "readline_loop (map Byte (c # line) @ rest) buf ln n =
          readline_loop (map Byte line @ rest) (buf[n := c]) ln (Suc n)"
      using lt by (simp add: readline_loop_Byte)
    also have "\<dots> = (ln, take (Suc n) (buf[n := c]) @ line, rest)"
      using Cons.prems False by (intro Cons.IH) auto
    also have "take (Suc n) (buf[n := c]) = take n buf @ [c]"
      using Cons.prems by (simp add: take_Suc_conv_app_nth)
    finally show ?thesis by simp
  qed
qed

lemma readline_loop_bounds:
  "n < ln \<Longrightarrow> n \<le> fst (readline_loop s buf ln n) \<and> fst (readline_loop s buf ln n) \<le> ln"
proof (induction s arbitrary: n buf)
  case Nil
  then show ?case by (simp add: readline_loop_Nil)
next
  case (Cons i s)
  show ?case
  proof (cases i)
    case Fail
    with Cons.prems show ?thesis by (simp add: readline_loop_Fail)
  next
    case (Byte c)
    show ?thesis
    proof (cases "Suc n < ln")
      case True
      from Cons.IH[OF True, of "buf[n := c]"] Cons.prems show ?thesis
        unfolding Byte readline_loop_Byte by auto
    next
      case False
      with Cons.prems show ?thesis
        unfolding Byte readline_loop_Byte by auto
    qed
  qed
qed

text \<open>
  C10. Claim: for every host input stream, \<^verbatim>\<open>readline\<close> returns \<open>n\<close> with \<open>1 \<le> n \<le> 64\<close>,
  so that the store \<^verbatim>\<open>sc->remoteip[n-1] = '\0'\<close> of \<^verbatim>\<open>login\<close> is inside the array, also
  when the stream reports end-of-stream or an error before any byte. The code does not
  do this: on a stream that is at its end, or whose first \<^verbatim>\<open>read\<close> fails, \<^verbatim>\<open>readline\<close>
  returns 0, and \<^verbatim>\<open>login\<close> stores at index -1.
\<close>

theorem readline_returns_zero:
  "fst (readline [] buf 64) = 0 \<and> fst (readline (Fail # s) buf 64) = 0
   \<and> login (e\<lparr>pw_name := Some name, host_in := []\<rparr>) sc = Inl Fault"
  by (simp add: readline_def readline_loop_Nil readline_loop_Fail login_def)

text \<open>On a stream that delivers a first byte, the value returned is in range.\<close>

lemma readline_in_range:
  "1 \<le> fst (readline (Byte c # s) buf 64) \<and> fst (readline (Byte c # s) buf 64) \<le> 64"
proof -
  have "fst (readline (Byte c # s) buf 64) \<le> 64"
    using readline_loop_bounds[of 0 64 "Byte c # s" buf] by (simp add: readline_def)
  moreover have "1 \<le> fst (readline (Byte c # s) buf 64)"
    using readline_loop_bounds[of 1 64 s "buf[0 := c]"]
    by (simp add: readline_def readline_loop_Byte)
  ultimately show ?thesis by simp
qed

text \<open>
  The claim C8 in the words of the specification: \<^verbatim>\<open>readline\<close> consumes the first line
  of the stream and its newline and nothing after it, and the address stored by
  \<^verbatim>\<open>sc->remoteip[n-1] = '\0'\<close> is that line without its newline.
\<close>

definition first_line :: "item list \<Rightarrow> item list" where
  "first_line s = takeWhile (\<lambda>i. i \<noteq> Byte NL) s"

definition after_first_line :: "item list \<Rightarrow> item list" where
  "after_first_line s = drop 1 (dropWhile (\<lambda>i. i \<noteq> Byte NL) s)"

definition reads_one_line :: "item list \<Rightarrow> char list \<Rightarrow> bool" where
  "reads_one_line s buf =
     (case readline s buf 64 of (n, b, s') \<Rightarrow>
        s' = after_first_line s \<and> cstr (b[n - 1 := NUL]) = bytes_of (first_line s))"

text \<open>
  C8. Claim: authorization reads the host stream one byte at a time, consumes exactly
  one line, and stores that line without its line terminator, for every host stream,
  also when the first line is longer than the address array. As amended: when the first
  newline of the stream is among its first 64 bytes, \<^verbatim>\<open>readline\<close> consumes the bytes up
  to and including that newline and nothing more, and the string stored is the line
  without the newline (as a C string, so up to a NUL byte of the line if it has one);
  when the first 64 bytes hold no newline, exactly these 64 bytes are consumed and the
  string of the first 63 is stored.
\<close>

theorem readline_one_line:
  assumes "length buf = 64" and "NL \<notin> set line"
  shows "(length line < 64 \<longrightarrow>
            (\<exists>b. readline (map Byte (line @ [NL]) @ rest) buf 64 = (Suc (length line), b, rest)
                \<and> cstr (b[Suc (length line) - 1 := NUL]) = cstr line))
       \<and> (length line = 64 \<longrightarrow>
            (\<exists>b. readline (map Byte line @ rest) buf 64 = (64, b, rest)
                \<and> cstr (b[64 - 1 := NUL]) = cstr (take 63 line)))"
proof (intro conjI impI)
  assume lt: "length line < 64"
  have "readline (map Byte (line @ [NL]) @ rest) buf 64 =
        (Suc (length line), line @ NL # drop (Suc (length line)) buf, rest)"
    using readline_loop_line[of line 0 64 buf rest] assms lt by (simp add: readline_def)
  moreover have "cstr ((line @ NL # drop (Suc (length line)) buf)[Suc (length line) - 1 := NUL])
        = cstr line"
    by (simp add: list_update_append cstr_append)
  ultimately show "\<exists>b. readline (map Byte (line @ [NL]) @ rest) buf 64 = (Suc (length line), b, rest)
                \<and> cstr (b[Suc (length line) - 1 := NUL]) = cstr line"
    by blast
next
  assume eq: "length line = 64"
  then have ne: "line \<noteq> []" by auto
  have r: "readline (map Byte line @ rest) buf 64 = (64, line, rest)"
    using readline_loop_cut[of line 0 64 buf rest] assms eq ne by (simp add: readline_def)
  have "line = take 63 line @ drop 63 line" by simp
  moreover have "length (take 63 line) = 63" using eq by simp
  ultimately have "line[63 := NUL] = take 63 line @ NUL # drop 64 line"
    using eq by (simp add: upd_conv_take_nth_drop)
  then have "cstr (line[64 - 1 := NUL]) = cstr (take 63 line)"
    by (simp add: cstr_append)
  with r show "\<exists>b. readline (map Byte line @ rest) buf 64 = (64, b, rest)
                \<and> cstr (b[64 - 1 := NUL]) = cstr (take 63 line)"
    by blast
qed

theorem readline_one_line_witness:
  "length (replicate 64 NUL) = 64 \<and> NL \<notin> set ''10.0.0.2''
   \<and> (\<exists>b. readline (map Byte (''10.0.0.2'' @ [NL]) @ map Byte ''abc'') (replicate 64 NUL) 64
            = (Suc (length ''10.0.0.2''), b, map Byte ''abc'')
          \<and> cstr (b[length ''10.0.0.2'' := NUL]) = ''10.0.0.2'')"
proof -
  have h1: "length (replicate 64 NUL) = 64" by simp
  have h2: "NL \<notin> set ''10.0.0.2''" by (simp add: NL_def)
  have c: "cstr ''10.0.0.2'' = ''10.0.0.2''" by (simp add: cstr_def NUL_def)
  from readline_one_line[OF h1 h2, of "map Byte ''abc''"] h1 h2 c show ?thesis by simp
qed

text \<open>A first line of 64 characters: the newline and the packet bytes after it are left
  in the stream, and 63 characters are stored.\<close>

theorem reads_one_line_counterexample:
  "\<not> reads_one_line (map Byte (replicate 64 CHR ''a'' @ [NL] @ ''pkt'')) (replicate 64 NUL)"
proof -
  have "readline (map Byte (replicate 64 CHR ''a'') @ map Byte ([NL] @ ''pkt'')) (replicate 64 NUL) 64
        = (64, replicate 64 CHR ''a'', map Byte ([NL] @ ''pkt''))"
    using readline_loop_cut[of "replicate 64 CHR ''a''" 0 64 "replicate 64 NUL" "map Byte ([NL] @ ''pkt'')"]
    by (simp add: readline_def NL_def)
  moreover have "after_first_line (map Byte (replicate 64 CHR ''a'') @ map Byte ([NL] @ ''pkt''))
        = map Byte ''pkt''"
    by (simp add: after_first_line_def dropWhile_append NL_def)
  ultimately show ?thesis
    by (simp add: reads_one_line_def)
qed

section \<open>The configuration lookup\<close>

lemma getcfgbyid_open:
  "\<exists>fp'. getcfgbyid disk (Some g) u r = Inr (find (matches u r) (entries g), fp')"
proof (induction g rule: entries.induct)
  case (1 f)
  show ?case
  proof (cases "next_entry f")
    case None
    then show ?thesis
      by (subst getcfgbyid.simps, subst entries.simps) (simp add: getcfgentry_def)
  next
    case (Some p)
    obtain cfg f' where p: "p = (cfg, f')" by (cases p)
    show ?thesis
    proof (cases "matches u r cfg")
      case True
      with Some p show ?thesis
        by (subst getcfgbyid.simps, subst entries.simps) (simp add: getcfgentry_def)
    next
      case False
      from "1.IH"[OF Some p[symmetric]] obtain fp' where
        "getcfgbyid disk (Some f') u r = Inr (find (matches u r) (entries f'), fp')" by blast
      with False Some p show ?thesis
        by (subst getcfgbyid.simps, subst entries.simps) (simp add: getcfgentry_def)
    qed
  qed
qed

lemma getcfgbyid_fresh:
  "getcfgbyid (Some f) None u r = getcfgbyid (Some f) (Some f) u r"
  by (subst getcfgbyid.simps, subst (2) getcfgbyid.simps) (simp add: getcfgentry_def)

lemma getcfgbyid_find:
  "\<exists>fp'. getcfgbyid (Some f) None u r = Inr (find (matches u r) (entries f), fp')"
  using getcfgbyid_open[of "Some f" f u r] by (simp add: getcfgbyid_fresh)

lemma getcfgbyid_unavailable: "getcfgbyid None None u r = Inl (Exit 1)"
  by (subst getcfgbyid.simps) (simp add: getcfgentry_def)

text \<open>What the reader stores in a record: \<^verbatim>\<open>sscanf\<close> reads the line as a C string and
  bounds every field by its width, so no field holds a NUL and each fits its array with
  its terminator.\<close>

lemma scan_s_set:
  "scan_s w s = Some (tok, rest) \<Longrightarrow> set tok \<subseteq> set s \<and> set rest \<subseteq> set s \<and> length tok \<le> w"
  by (auto simp: scan_s_def Let_def split: if_splits
           dest: in_set_takeD in_set_dropD set_takeWhileD set_dropWhileD)

lemma sscanf_fields:
  "i < length (sscanf ws s) \<Longrightarrow> set (sscanf ws s ! i) \<subseteq> set s \<and> length (sscanf ws s ! i) \<le> ws ! i"
proof (induction ws arbitrary: s i)
  case Nil
  then show ?case by simp
next
  case (Cons w ws)
  show ?case
  proof (cases "scan_s w s")
    case None
    with Cons.prems show ?thesis by simp
  next
    case (Some p)
    obtain tok rest where p: "p = (tok, rest)" by (cases p)
    note sc = scan_s_set[OF Some[unfolded p]]
    show ?thesis
    proof (cases i)
      case 0
      with Some p sc show ?thesis by simp
    next
      case (Suc j)
      with Cons.prems Some p have "j < length (sscanf ws rest)" by simp
      from Cons.IH[OF this] sc Suc Some p show ?thesis by auto
    qed
  qed
qed

lemma sscanf_length: "length (sscanf ws s) \<le> length ws"
proof (induction ws arbitrary: s)
  case Nil
  show ?case by simp
next
  case (Cons w ws)
  then show ?case by (cases "scan_s w s") (auto split: prod.splits)
qed

lemma cstr_no_NUL: "NUL \<notin> set (cstr a)"
  by (auto simp: cstr_def dest: set_takeWhileD)

definition wf_entry :: "cfgentry \<Rightarrow> bool" where
  "wf_entry cfg = (NUL \<notin> set (cfgentry.username cfg) \<and> NUL \<notin> set (cfgentry.remoteip cfg)
     \<and> NUL \<notin> set (cfgentry.localip cfg) \<and> NUL \<notin> set (cfgentry.script cfg)
     \<and> length (cfgentry.username cfg) \<le> 127 \<and> length (cfgentry.remoteip cfg) \<le> 63
     \<and> length (cfgentry.localip cfg) \<le> 63 \<and> length (cfgentry.script cfg) \<le> 255)"

lemma next_entry_unfold:
  "fgets 1024 f = Some (lb, g) \<Longrightarrow> fs = sscanf [127, 63, 63, 255] (cstr lb) \<Longrightarrow>
   next_entry f =
     (if sscanf_r fs \<ge> 3 \<and> first_char (fs ! 0) \<noteq> CHR ''#''
      then Some (\<lparr>cfgentry.username = fs ! 0, remoteip = fs ! 1, localip = fs ! 2,
                  script = (if sscanf_r fs \<ge> 4 then fs ! 3 else [])\<rparr>, g)
      else next_entry g)"
  by (subst next_entry.simps) (simp add: Let_def del: sscanf.simps)

lemma next_entry_wf: "next_entry f = Some (cfg, f') \<Longrightarrow> wf_entry cfg"
proof (induction f rule: next_entry.induct)
  case (1 f)
  show ?case
  proof (cases "fgets 1024 f")
    case None
    with "1.prems" show ?thesis by (simp add: next_entry.simps)
  next
    case (Some p)
    obtain linebuffer g where p: "p = (linebuffer, g)" by (cases p)
    let ?fs = "sscanf [127, 63, 63, 255] (cstr linebuffer)"
    note unf = next_entry_unfold[OF Some[unfolded p] refl]
    show ?thesis
    proof (cases "sscanf_r ?fs \<ge> 3 \<and> first_char (?fs ! 0) \<noteq> CHR ''#''")
      case True
      then have len3: "3 \<le> length ?fs" by (auto simp: sscanf_r_def split: if_splits)
      have cfg: "cfg = \<lparr>cfgentry.username = ?fs ! 0, remoteip = ?fs ! 1, localip = ?fs ! 2,
                         script = (if sscanf_r ?fs \<ge> 4 then ?fs ! 3 else [])\<rparr>"
        using "1.prems" True unfolding unf by (simp del: sscanf.simps)
      have fld: "\<And>i. i < length ?fs \<Longrightarrow>
          NUL \<notin> set (?fs ! i) \<and> length (?fs ! i) \<le> [127, 63, 63, 255] ! i"
        using sscanf_fields[of _ "[127, 63, 63, 255]" "cstr linebuffer"] cstr_no_NUL[of linebuffer]
        by blast
      from len3 have ix: "0 < length ?fs" "1 < length ?fs" "2 < length ?fs" by linarith+
      have f0: "NUL \<notin> set (?fs ! 0) \<and> length (?fs ! 0) \<le> 127"
        using fld[OF ix(1)] by (simp del: sscanf.simps)
      have f1: "NUL \<notin> set (?fs ! 1) \<and> length (?fs ! 1) \<le> 63"
        using fld[OF ix(2)] by (simp del: sscanf.simps)
      have f2: "NUL \<notin> set (?fs ! 2) \<and> length (?fs ! 2) \<le> 63"
        using fld[OF ix(3)] by (simp del: sscanf.simps)
      have f3: "NUL \<notin> set (?fs ! 3) \<and> length (?fs ! 3) \<le> 255" if "sscanf_r ?fs \<ge> 4"
      proof -
        from that have "3 < length ?fs" by (auto simp: sscanf_r_def split: if_splits)
        from fld[OF this] show ?thesis by (simp del: sscanf.simps)
      qed
      show ?thesis unfolding wf_entry_def cfg using f0 f1 f2 f3 by (simp del: sscanf.simps)
    next
      case False
      with "1.prems" have "next_entry g = Some (cfg, f')"
        unfolding unf by (simp del: sscanf.simps)
      from "1.IH"[OF Some p[symmetric] refl refl False this] show ?thesis .
    qed
  qed
qed

lemma entries_wf: "cfg \<in> set (entries f) \<Longrightarrow> wf_entry cfg"
proof (induction f rule: entries.induct)
  case (1 f)
  show ?case
  proof (cases "next_entry f")
    case None
    with "1.prems" show ?thesis by (subst (asm) entries.simps) simp
  next
    case (Some p)
    obtain c f' where p: "p = (c, f')" by (cases p)
    from "1.prems" Some p have "cfg = c \<or> cfg \<in> set (entries f')"
      by (subst (asm) entries.simps) simp
    then show ?thesis
      using next_entry_wf[OF Some[unfolded p]] "1.IH"[OF Some p[symmetric]] by auto
  qed
qed

lemma matches_wf:
  "wf_entry cfg \<Longrightarrow> matches u r cfg = (cfgentry.username cfg = cstr u \<and> cfgentry.remoteip cfg = cstr r)"
  by (auto simp: matches_def streq_def wf_entry_def cstr_id)

text \<open>
  C2. For every configuration file and every pair of request strings, the lookup started
  on the unopened file returns the first record, in file order, whose identity and remote
  address are both equal to the request strings, character for character; it returns no
  record when no record has both fields equal to them. So no prefix, partial or
  case-insensitive match succeeds, and a later matching record is never returned when an
  earlier one matches.
\<close>

theorem getcfgbyid_first_match:
  "\<exists>found fp'. getcfgbyid (Some f) None u r = Inr (found, fp') \<and>
     (case found of
        None \<Rightarrow> \<forall>cfg \<in> set (entries f).
                   \<not> (cfgentry.username cfg = cstr u \<and> cfgentry.remoteip cfg = cstr r)
      | Some cfg \<Rightarrow>
          \<exists>i < length (entries f). entries f ! i = cfg
             \<and> cfgentry.username cfg = cstr u \<and> cfgentry.remoteip cfg = cstr r
             \<and> (\<forall>j < i. \<not> (cfgentry.username (entries f ! j) = cstr u
                           \<and> cfgentry.remoteip (entries f ! j) = cstr r)))"
proof -
  from getcfgbyid_find[of f u r] obtain fp' where
    g: "getcfgbyid (Some f) None u r = Inr (find (matches u r) (entries f), fp')" by blast
  have m: "\<And>cfg. cfg \<in> set (entries f) \<Longrightarrow>
      matches u r cfg = (cfgentry.username cfg = cstr u \<and> cfgentry.remoteip cfg = cstr r)"
    by (rule matches_wf) (rule entries_wf)
  show ?thesis
  proof (cases "find (matches u r) (entries f)")
    case None
    then have "\<forall>cfg \<in> set (entries f). \<not> matches u r cfg" by (simp add: find_None_iff)
    with m have "\<forall>cfg \<in> set (entries f).
        \<not> (cfgentry.username cfg = cstr u \<and> cfgentry.remoteip cfg = cstr r)" by blast
    with g None show ?thesis by simp
  next
    case (Some cfg)
    then obtain i where i: "i < length (entries f)" "matches u r (entries f ! i)"
      "cfg = entries f ! i" "\<forall>j<i. \<not> matches u r (entries f ! j)"
      by (auto simp: find_Some_iff)
    have "cfgentry.username cfg = cstr u \<and> cfgentry.remoteip cfg = cstr r"
      using i m[of cfg] by simp
    moreover have "\<forall>j<i. \<not> (cfgentry.username (entries f ! j) = cstr u
                           \<and> cfgentry.remoteip (entries f ! j) = cstr r)"
      using i m by (metis nth_mem order_less_trans)
    ultimately show ?thesis using g Some i by auto
  qed
qed

section \<open>Link establishment\<close>

text \<open>The descriptors that are open after a list of actions, starting from \<open>fds\<close>.\<close>

fun open_after :: "action list \<Rightarrow> int list \<Rightarrow> int list" where
  "open_after [] fds = fds"
| "open_after (Open fd # l) fds = open_after l (fds @ [fd])"
| "open_after (Close fd # l) fds = open_after l (removeAll fd fds)"
| "open_after (a # l) fds = open_after l fds"

text \<open>The actions of link establishment and release, as opposed to the activation and
  deactivation commands and to the relay's reads and writes.\<close>

fun setup_only :: "action \<Rightarrow> bool" where
  "setup_only (Open fd) = True"
| "setup_only (Close fd) = True"
| "setup_only (Tiocsetd fd d) = True"
| "setup_only (Siocsifencap fd v) = True"
| "setup_only a = False"

text \<open>
  C9. \<^verbatim>\<open>open_pty_pair\<close> is all-or-nothing: either it returns 1, has stored the master
  descriptor that \<^verbatim>\<open>getpt\<close> gave and the slave descriptor that \<^verbatim>\<open>open\<close> gave, both valid
  (not negative), and these two are the descriptors it leaves open; or it returns 0, has
  left both output variables as they were and leaves no descriptor open (the master, if
  it was opened, is closed again). This holds whichever of \<^verbatim>\<open>getpt\<close>, \<^verbatim>\<open>grantpt\<close>,
  \<^verbatim>\<open>unlockpt\<close>, \<^verbatim>\<open>ptsname_r\<close> and \<^verbatim>\<open>open\<close> fail.
\<close>

theorem open_pty_pair_all_or_nothing:
  "(case open_pty_pair e mp sp of (ok, m, s, l) \<Rightarrow>
      (ok = 1 \<and> m = getpt_r e \<and> s = open_r e \<and> 0 \<le> m \<and> 0 \<le> s \<and> open_after l [] = [m, s])
    \<or> (ok = 0 \<and> m = mp \<and> s = sp \<and> open_after l [] = []))"
  by (simp add: open_pty_pair_def Let_def)

lemma slip_setup_Inr:
  "slip_setup e sc = (l, Inr sc') \<Longrightarrow>
     0 \<le> fst (tiocgetd_new_r e) \<and> snd (tiocgetd_new_r e) = N_SLIP
   \<and> 0 \<le> fst (siocgifencap_r e) \<and> snd (siocgifencap_r e) = 0
   \<and> l = [Tiocsetd (slavefd sc) N_SLIP, Siocsifencap (slavefd sc) 0]
   \<and> sc' = sc\<lparr>oldldisc := snd (tiocgetd_old_r e), unit := tiocsetd_r e\<rparr>
   \<and> 0 \<le> tiocsetd_r e"
  by (auto simp: slip_setup_def Let_def split: if_splits)

lemma slip_setup_log: "list_all setup_only (fst (slip_setup e sc))"
  by (auto simp: slip_setup_def Let_def split: if_splits)

lemma slip_setup_Inl: "slip_setup e sc = (l, Inl c) \<Longrightarrow> c = Exit 1"
  by (auto simp: slip_setup_def Let_def split: if_splits)

lemma slip_setup_mismatch:
  "snd (tiocgetd_new_r e) \<noteq> N_SLIP \<or> snd (siocgifencap_r e) \<noteq> 0 \<Longrightarrow>
   snd (slip_setup e sc) = Inl (Exit 1)"
  by (auto simp: slip_setup_def Let_def split: if_splits)

lemma open_pty_pair_log: "list_all setup_only (snd (snd (snd (open_pty_pair e mp sp))))"
  by (simp add: open_pty_pair_def Let_def)

lemma open_pty_pair_ok:
  "open_pty_pair e mp sp = (ok, m, s, l) \<Longrightarrow> ok \<noteq> 0 \<Longrightarrow>
   m = getpt_r e \<and> s = open_r e \<and> l = [Open m, Open s] \<and> 0 \<le> m \<and> 0 \<le> s"
  by (auto simp: open_pty_pair_def Let_def split: if_splits)

lemma slip_start_Inl:
  assumes "slip_start e sc = (l, Inl c)"
  shows "c = Exit 1 \<and> list_all setup_only l"
proof -
  obtain ok m s l0 where o: "open_pty_pair e (masterfd sc) (slavefd sc) = (ok, m, s, l0)"
    by (metis prod_cases4)
  have l0: "list_all setup_only l0"
    using open_pty_pair_log[of e "masterfd sc" "slavefd sc"] o by simp
  let ?sc1 = "sc\<lparr>masterfd := m, slavefd := s\<rparr>"
  obtain l1 r where ss: "slip_setup e ?sc1 = (l1, r)" by (cases "slip_setup e ?sc1")
  have l1: "list_all setup_only l1" using slip_setup_log[of e ?sc1] ss by simp
  show ?thesis
    using assms o l0 ss l1 slip_setup_Inl[of e ?sc1 l1]
    by (auto simp: slip_start_def tty_setup_def split: option.splits if_splits sum.splits)
qed

lemma slip_start_Inr:
  assumes "slip_start e sc = (l, Inr sc')"
  shows "sc' = sc\<lparr>masterfd := getpt_r e, slavefd := open_r e,
                   oldldisc := snd (tiocgetd_old_r e), unit := tiocsetd_r e\<rparr>
       \<and> l = [Open (getpt_r e), Open (open_r e), Tiocsetd (open_r e) N_SLIP,
              Siocsifencap (open_r e) 0, System Interface_start (start_cmd (IFCONFIG e) sc')]
       \<and> 0 \<le> getpt_r e \<and> 0 \<le> open_r e \<and> 0 \<le> tcsetattr_r e
       \<and> snd (tiocgetd_new_r e) = N_SLIP \<and> snd (siocgifencap_r e) = 0"
proof -
  obtain ok m s l0 where o: "open_pty_pair e (masterfd sc) (slavefd sc) = (ok, m, s, l0)"
    by (metis prod_cases4)
  let ?sc1 = "sc\<lparr>masterfd := m, slavefd := s\<rparr>"
  obtain l1 r where ss: "slip_setup e ?sc1 = (l1, r)" by (cases "slip_setup e ?sc1")
  from assms o ss have ok: "ok \<noteq> 0" and ts: "0 \<le> tcsetattr_r e" and r: "r = Inr sc'"
    and l: "l = l0 @ l1 @ interface_start e sc'"
    by (auto simp: slip_start_def tty_setup_def split: option.splits if_splits sum.splits)
  note op = open_pty_pair_ok[OF o ok]
  note su = slip_setup_Inr[OF ss[unfolded r]]
  show ?thesis using op su l ts by (simp add: interface_start_def)
qed

lemma slip_start_mismatch:
  assumes "snd (tiocgetd_new_r e) \<noteq> N_SLIP \<or> snd (siocgifencap_r e) \<noteq> 0"
  shows "snd (slip_start e sc) = Inl (Exit 1) \<and> list_all setup_only (fst (slip_start e sc))"
proof (cases "slip_start e sc")
  case (Pair l r)
  show ?thesis
  proof (cases r)
    case (Inl c)
    with Pair slip_start_Inl[of e sc l c] show ?thesis by simp
  next
    case (Inr sc')
    with Pair slip_start_Inr[of e sc l sc'] assms show ?thesis by simp
  qed
qed

text \<open>
  C6. After the switch to the SLIP discipline, \<^verbatim>\<open>slip_setup\<close> queries the line
  discipline and the encapsulation again. It returns, and \<^verbatim>\<open>slip_start\<close> goes on to the
  activation command, only if both queries succeeded, the discipline read back is
  \<^verbatim>\<open>N_SLIP\<close> and the encapsulation read back is the value 0 that was set. When either
  value differs, \<^verbatim>\<open>slip_setup\<close> and \<^verbatim>\<open>slip_start\<close> end the process with status 1
  before any activation command, and a run whose login succeeded ends with status 1
  having done nothing but link establishment: no command, no relay.
\<close>

theorem slip_setup_verified:
  "(slip_setup e sc = (l, Inr sc') \<longrightarrow>
      0 \<le> fst (tiocgetd_new_r e) \<and> snd (tiocgetd_new_r e) = N_SLIP
    \<and> 0 \<le> fst (siocgifencap_r e) \<and> snd (siocgifencap_r e) = 0
    \<and> l = [Tiocsetd (slavefd sc) N_SLIP, Siocsifencap (slavefd sc) 0])
   \<and> (slip_start e sc = (l', Inr sc'') \<longrightarrow>
        snd (tiocgetd_new_r e) = N_SLIP \<and> snd (siocgifencap_r e) = 0)
   \<and> (snd (tiocgetd_new_r e) \<noteq> N_SLIP \<or> snd (siocgifencap_r e) \<noteq> 0 \<longrightarrow>
        snd (slip_setup e sc) = Inl (Exit 1)
      \<and> snd (slip_start e sc) = Inl (Exit 1) \<and> list_all setup_only (fst (slip_start e sc))
      \<and> (\<forall>sc1 s. login e (sc_init e) = Inr (sc1, s) \<longrightarrow>
            fst (main e) = Exit 1 \<and> list_all setup_only (snd (main e))))"
proof (intro conjI impI allI)
  assume "slip_setup e sc = (l, Inr sc')"
  from slip_setup_Inr[OF this]
  show "0 \<le> fst (tiocgetd_new_r e)" "snd (tiocgetd_new_r e) = N_SLIP"
    "0 \<le> fst (siocgifencap_r e)" "snd (siocgifencap_r e) = 0"
    "l = [Tiocsetd (slavefd sc) N_SLIP, Siocsifencap (slavefd sc) 0]"
    by simp_all
next
  assume "slip_start e sc = (l', Inr sc'')"
  from slip_start_Inr[OF this]
  show "snd (tiocgetd_new_r e) = N_SLIP" "snd (siocgifencap_r e) = 0" by simp_all
next
  assume m: "snd (tiocgetd_new_r e) \<noteq> N_SLIP \<or> snd (siocgifencap_r e) \<noteq> 0"
  show "snd (slip_setup e sc) = Inl (Exit 1)" by (rule slip_setup_mismatch[OF m])
  show "snd (slip_start e sc) = Inl (Exit 1)" using slip_start_mismatch[OF m] by simp
  show "list_all setup_only (fst (slip_start e sc))" using slip_start_mismatch[OF m] by simp
  fix sc1 s assume lg: "login e (sc_init e) = Inr (sc1, s)"
  obtain l r where st: "slip_start e sc1 = (l, r)" by (cases "slip_start e sc1")
  with slip_start_mismatch[OF m, of sc1] have "r = Inl (Exit 1)" "list_all setup_only l"
    by simp_all
  with lg st show "fst (main e) = Exit 1" "list_all setup_only (snd (main e))"
    by (simp_all add: main_def)
qed

section \<open>What login leaves in the session\<close>

lemma cstr_cstr: "cstr (cstr a) = cstr a"
  by (simp add: cstr_id cstr_no_NUL)

lemma cstr_strncpy: "length (cstr src) < n \<Longrightarrow> cstr (strncpy dst src n) = cstr src"
proof -
  assume lt: "length (cstr src) < n"
  then obtain k where k: "n - length (cstr src) = Suc k" by (cases "n - length (cstr src)") auto
  show ?thesis
    using lt by (simp add: strncpy_def Let_def k cstr_append cstr_cstr)
qed

lemma login_Inr:
  assumes "login e sc = Inr (sc', s')"
  shows "\<exists>name f cfg fp n b. pw_name e = Some name \<and> cfg_file e = Some f
     \<and> readline (host_in e) (remoteip sc) 64 = (n, b, s') \<and> 0 < n
     \<and> getcfgbyid (Some f) None (username sc') (remoteip sc') = Inr (Some cfg, fp)
     \<and> cfg \<in> set (entries f) \<and> matches (username sc') (remoteip sc') cfg
     \<and> sc' = sc\<lparr>username := strncpy (username sc) name 127, remoteip := b[n - 1 := NUL],
                  localip := strncpy (localip sc) (cfgentry.localip cfg) 64,
                  script := strncpy (script sc) (cfgentry.script cfg) 256\<rparr>"
proof -
  from assms obtain name where name: "pw_name e = Some name"
    by (cases "pw_name e") (auto simp: login_def)
  obtain n b s where rl: "readline (host_in e) (remoteip sc) 64 = (n, b, s)"
    by (metis prod_cases3)
  let ?u = "strncpy (username sc) name 127"
  let ?r = "b[n - 1 := NUL]"
  from assms name rl have n: "0 < n"
    by (auto simp: login_def Let_def split: if_splits)
  obtain f where f: "cfg_file e = Some f"
    using assms name rl n getcfgbyid_unavailable[of ?u ?r]
    by (cases "cfg_file e") (auto simp: login_def Let_def)
  from getcfgbyid_find[of f ?u ?r] obtain fp where
    g: "getcfgbyid (Some f) None ?u ?r = Inr (find (matches ?u ?r) (entries f), fp)" by blast
  from assms name rl n f g obtain cfg where
    fd: "find (matches ?u ?r) (entries f) = Some cfg" and s: "s' = s"
    and sc': "sc' = sc\<lparr>username := ?u, remoteip := ?r,
                  localip := strncpy (localip sc) (cfgentry.localip cfg) 64,
                  script := strncpy (script sc) (cfgentry.script cfg) 256\<rparr>"
    by (auto simp: login_def Let_def split: if_splits option.splits)
  from fd have "cfg \<in> set (entries f)" "matches ?u ?r cfg"
    by (auto simp: find_Some_iff)
  with name f rl n g fd s sc' show ?thesis by auto
qed

lemma login_strings:
  assumes "login e sc = Inr (sc', s')"
  shows "\<exists>f cfg fp. cfg_file e = Some f \<and> cfg \<in> set (entries f)
     \<and> getcfgbyid (Some f) None (username sc') (remoteip sc') = Inr (Some cfg, fp)
     \<and> cstr (username sc') = cfgentry.username cfg \<and> cstr (remoteip sc') = cfgentry.remoteip cfg
     \<and> cstr (localip sc') = cfgentry.localip cfg \<and> cstr (script sc') = cfgentry.script cfg"
proof -
  from login_Inr[OF assms] obtain name f cfg fp n b where
    f: "cfg_file e = Some f" and cfg: "cfg \<in> set (entries f)"
    and g: "getcfgbyid (Some f) None (username sc') (remoteip sc') = Inr (Some cfg, fp)"
    and m: "matches (username sc') (remoteip sc') cfg"
    and sc': "sc' = sc\<lparr>username := strncpy (username sc) name 127, remoteip := b[n - 1 := NUL],
                  localip := strncpy (localip sc) (cfgentry.localip cfg) 64,
                  script := strncpy (script sc) (cfgentry.script cfg) 256\<rparr>"
    by blast
  from entries_wf[OF cfg] have wf: "wf_entry cfg" .
  from m wf have "cstr (username sc') = cfgentry.username cfg"
    "cstr (remoteip sc') = cfgentry.remoteip cfg"
    by (simp_all add: matches_wf)
  moreover have "cstr (localip sc') = cfgentry.localip cfg"
    using wf by (subst sc') (simp add: cstr_strncpy cstr_id wf_entry_def)
  moreover have "cstr (script sc') = cfgentry.script cfg"
    using wf by (subst sc') (simp add: cstr_strncpy cstr_id wf_entry_def)
  ultimately show ?thesis using f cfg g by blast
qed

lemma login_Inl: "login e sc = Inl c \<Longrightarrow> c = Exit 1 \<or> c = Fault"
proof -
  assume a: "login e sc = Inl c"
  show ?thesis
  proof (cases "pw_name e")
    case None
    with a show ?thesis by (simp add: login_def)
  next
    case (Some name)
    obtain n b s where rl: "readline (host_in e) (remoteip sc) 64 = (n, b, s)"
      by (metis prod_cases3)
    let ?u = "strncpy (username sc) name 127"
    let ?r = "b[n - 1 := NUL]"
    show ?thesis
    proof (cases "cfg_file e")
      case None
      with a Some rl getcfgbyid_unavailable[of ?u ?r] show ?thesis
        by (auto simp: login_def Let_def split: if_splits)
    next
      case (Some f)
      from getcfgbyid_find[of f ?u ?r] obtain fp where
        "getcfgbyid (Some f) None ?u ?r = Inr (find (matches ?u ?r) (entries f), fp)" by blast
      with a \<open>pw_name e = Some name\<close> rl Some show ?thesis
        by (auto simp: login_def Let_def split: if_splits option.splits)
    qed
  qed
qed

section \<open>The relay: what has been read and written\<close>

fun is_io :: "action \<Rightarrow> bool" where
  "is_io (Read fd d) = True"
| "is_io (Write fd d) = True"
| "is_io a = False"

text \<open>The bytes read from a descriptor and the bytes written to one, in order.\<close>

fun read_from :: "int \<Rightarrow> action list \<Rightarrow> string" where
  "read_from fd [] = []"
| "read_from fd (Read fd' d # l) = (if fd' = fd then d else []) @ read_from fd l"
| "read_from fd (a # l) = read_from fd l"

fun written_to :: "int \<Rightarrow> action list \<Rightarrow> string" where
  "written_to fd [] = []"
| "written_to fd (Write fd' d # l) = (if fd' = fd then d else []) @ written_to fd l"
| "written_to fd (a # l) = written_to fd l"

text \<open>The bytes of a buffer that are still to be written: \<open>len\<close> bytes from \<open>ptr\<close>.\<close>

definition pending :: "buf \<Rightarrow> string" where
  "pending b = take (nat (len b)) (drop (ptr b) (data b))"

text \<open>
  The two states of a direction with source \<open>src\<close>, destination \<open>dst\<close> and buffer \<open>b\<close>.
  Idle: the source is registered for reading, the destination is not registered for
  writing, and every byte read from the source has been written to the destination; the
  length of the buffer is 0, except before the first read of the direction, when the C
  variable is not yet initialised. Pending: the source is not registered, the destination
  is, and the bytes read and not yet written are the \<open>len > 0\<close> bytes at \<open>ptr\<close>.
\<close>

definition idle_reading :: "int \<Rightarrow> int \<Rightarrow> buf \<Rightarrow> relay \<Rightarrow> bool" where
  "idle_reading src dst b st =
     (src \<in> rfds st \<and> dst \<notin> wfds st
      \<and> read_from src (rlog st) = written_to dst (rlog st)
      \<and> (len b = 0 \<or> read_from src (rlog st) = []))"

definition pending_write :: "int \<Rightarrow> int \<Rightarrow> buf \<Rightarrow> relay \<Rightarrow> bool" where
  "pending_write src dst b st =
     (src \<notin> rfds st \<and> dst \<in> wfds st
      \<and> 0 < len b \<and> ptr b + nat (len b) \<le> length (data b)
      \<and> read_from src (rlog st) = written_to dst (rlog st) @ pending b)"

definition relay_inv :: "slipconn \<Rightarrow> relay \<Rightarrow> bool" where
  "relay_inv sc st =
     ((idle_reading 0 (masterfd sc) (stdinbuf st) st
        \<or> pending_write 0 (masterfd sc) (stdinbuf st) st)
    \<and> (idle_reading (masterfd sc) 1 (stdoutbuf st) st
        \<or> pending_write (masterfd sc) 1 (stdoutbuf st) st))"

lemma read_from_append: "read_from fd (l @ l') = read_from fd l @ read_from fd l'"
  by (induction fd l rule: read_from.induct) auto

lemma written_to_append: "written_to fd (l @ l') = written_to fd l @ written_to fd l'"
  by (induction fd l rule: written_to.induct) auto

lemma slip_stop_io [simp]:
  "read_from fd (slip_stop e sc) = []" "written_to fd (slip_stop e sc) = []"
  by (simp_all add: slip_stop_def interface_stop_def slip_release_def)

lemma sys_read_cases:
  "sys_read (Suc n) k s = (r, d, s') \<Longrightarrow>
     (s = [] \<and> r = 0 \<and> d = [] \<and> s' = [])
   \<or> (\<exists>t. s = Fail # t \<and> r = - 1 \<and> d = [] \<and> s' = t)
   \<or> (\<exists>c t. s = Byte c # t \<and> r = int (length d) \<and> d \<noteq> [] \<and> length d \<le> Suc n
        \<and> s = map Byte d @ s')"
proof (cases s)
  case Nil
  assume "sys_read (Suc n) k s = (r, d, s')"
  with Nil show ?thesis by simp
next
  case (Cons i t)
  assume a: "sys_read (Suc n) k s = (r, d, s')"
  show ?thesis
  proof (cases i)
    case Fail
    with a Cons show ?thesis by simp
  next
    case (Byte c)
    define m where "m = min (Suc n) (max 1 k)"
    define run where "run = takeWhile is_Byte (Byte c # t)"
    have m: "0 < m" "m \<le> Suc n" by (simp_all add: m_def)
    have run: "run \<noteq> []" by (simp add: run_def)
    have d: "d = map the_Byte (take m run)" and r: "r = int (length (take m run))"
      and s': "s' = drop (length (take m run)) (Byte c # t)"
      using a Cons Byte by (simp_all add: Let_def m_def run_def)
    have allb: "\<forall>x \<in> set (take m run). is_Byte x"
      by (auto simp: run_def dest!: in_set_takeD set_takeWhileD)
    have "map Byte (map the_Byte (take m run)) = take m run"
    proof -
      have "\<And>x. x \<in> set (take m run) \<Longrightarrow> Byte (the_Byte x) = x"
      proof -
        fix x assume "x \<in> set (take m run)"
        with allb have "is_Byte x" by blast
        then show "Byte (the_Byte x) = x" by (cases x) auto
      qed
      then show ?thesis by (simp add: map_idI)
    qed
    moreover have "take m run = take (length (take m run)) (Byte c # t)"
    proof -
      have "take m run = take m (take (length run) (Byte c # t))"
        unfolding run_def by (metis takeWhile_eq_take)
      also have "\<dots> = take (min m (length run)) (Byte c # t)"
        by (simp only: take_take)
      finally have eq: "take m run = take (min m (length run)) (Byte c # t)" .
      have "length (take m run) = min m (length run)" by (simp add: min.commute)
      with eq show ?thesis by (simp only:)
    qed
    ultimately have "map Byte d @ s' = Byte c # t"
      unfolding d s' by (metis append_take_drop_id)
    moreover have "d \<noteq> []" using m run by (cases run; cases m) (auto simp: d)
    moreover have "length d \<le> Suc n" using m by (simp add: d)
    ultimately show ?thesis using Cons Byte r d by auto
  qed
qed

lemma bufread_Inl:
  "bufread e sc fd b s k = (l, Inl c) \<Longrightarrow> c = Exit 1 \<and> l = slip_stop e sc \<and> (\<exists>t. s = Fail # t)"
proof -
  assume a: "bufread e sc fd b s k = (l, Inl c)"
  obtain r d s' where sr: "sys_read (Suc 16383) k s = (r, d, s')" by (metis prod_cases3)
  from sys_read_cases[OF sr] a sr show ?thesis
    by (auto simp: bufread_def Let_def)
qed

lemma bufread_Inr:
  assumes "bufread e sc fd b s k = (l, Inr (b', s'))"
  shows "\<exists>d. l = [Read fd d] \<and> len b' = int (length d) \<and> ptr b' = 0 \<and> pending b' = d
           \<and> length d \<le> length (data b') \<and> bytes_of s = d @ bytes_of s'
           \<and> (d = [] \<longleftrightarrow> s = [])"
proof -
  obtain r d t where sr: "sys_read (Suc 16383) k s = (r, d, t)" by (metis prod_cases3)
  from assms sr have l: "l = [Read fd d]" and t: "s' = t" and r: "0 \<le> r"
    and b': "b' = b\<lparr>len := r, data := d @ drop (length d) (data b), ptr := 0\<rparr>"
    by (auto simp: bufread_def Let_def split: if_splits)
  from sys_read_cases[OF sr] r have c: "r = int (length d)" "bytes_of s = d @ bytes_of t"
    "d = [] \<longleftrightarrow> s = []"
    by (auto simp: bytes_of_def comp_def)
  show ?thesis using l t b' c by (auto simp: pending_def)
qed

lemma bufwrite_Inl:
  "bufwrite e sc fd b a = (l, Inl c) \<Longrightarrow> c = Exit 1 \<and> l = slip_stop e sc"
  by (auto simp: bufwrite_def Let_def split: if_splits)

lemma bufwrite_Inr:
  assumes "bufwrite e sc fd b a = (l, Inr b')" and "ptr b + nat (len b) \<le> length (data b)"
  shows "\<exists>w. l = [Write fd w] \<and> w \<noteq> [] \<and> pending b = w @ pending b' \<and> 0 \<le> len b'
           \<and> (len b' = 0 \<longrightarrow> pending b' = [])
           \<and> ptr b' + nat (len b') \<le> length (data b')"
proof -
  define r where "r = sys_write a (len b)"
  from assms(1) have r: "0 < r" and l: "l = [Write fd (take (nat r) (drop (ptr b) (data b)))]"
    and b': "b' = b\<lparr>len := len b - r, ptr := ptr b + nat r\<rparr>"
    by (auto simp: bufwrite_def Let_def r_def split: if_splits)
  from r have le: "r \<le> len b" by (auto simp: r_def sys_write_def split: if_splits)
  let ?w = "take (nat r) (drop (ptr b) (data b))"
  have n: "nat (len b) = nat r + nat (len b - r)" using r le by linarith
  have "pending b = ?w @ pending b'"
    unfolding pending_def b' by (simp add: n take_add add.commute)
  moreover have "?w \<noteq> []" using r le assms(2) by auto
  moreover have "ptr b' + nat (len b') \<le> length (data b')"
    using assms(2) n by (simp add: b')
  ultimately show ?thesis using l le by (auto simp: b' pending_def)
qed

text \<open>
  The invariant of the loop. Besides the state of each direction: what has been read from
  each input descriptor is a prefix of what that descriptor delivers (\<open>h0\<close> and \<open>l0\<close>
  are what the two descriptors had to deliver when the loop was entered), and no
  zero-length read of descriptor 0 has happened (it ends the process). \<open>final_ok\<close> is what
  remains true of the state the process ends in.
\<close>

definition streams_ok :: "item list \<Rightarrow> item list \<Rightarrow> slipconn \<Rightarrow> relay \<Rightarrow> bool" where
  "streams_ok h0 l0 sc st =
     (bytes_of h0 = read_from 0 (rlog st) @ bytes_of (hin st)
      \<and> bytes_of l0 = read_from (masterfd sc) (rlog st) @ bytes_of (lin st))"

definition relay_ok :: "item list \<Rightarrow> item list \<Rightarrow> slipconn \<Rightarrow> relay \<Rightarrow> bool" where
  "relay_ok h0 l0 sc st =
     (relay_inv sc st \<and> streams_ok h0 l0 sc st \<and> Read 0 [] \<notin> set (rlog st))"

definition final_ok :: "item list \<Rightarrow> item list \<Rightarrow> slipconn \<Rightarrow> relay \<Rightarrow> bool" where
  "final_ok h0 l0 sc st =
     ((\<exists>p. read_from 0 (rlog st) = written_to (masterfd sc) (rlog st) @ p)
      \<and> (\<exists>q. read_from (masterfd sc) (rlog st) = written_to 1 (rlog st) @ q)
      \<and> (\<exists>t. bytes_of h0 = read_from 0 (rlog st) @ t)
      \<and> (\<exists>t. bytes_of l0 = read_from (masterfd sc) (rlog st) @ t)
      \<and> (if Read 0 [] \<in> set (rlog st)
         then written_to (masterfd sc) (rlog st) = bytes_of h0 else True))"

definition post :: "item list \<Rightarrow> item list \<Rightarrow> slipconn \<Rightarrow> status option \<times> relay \<Rightarrow> bool" where
  "post h0 l0 sc p =
     (case p of (None, st) \<Rightarrow> relay_ok h0 l0 sc st | (Some c, st) \<Rightarrow> final_ok h0 l0 sc st)"

lemma relay_ok_final: "relay_ok h0 l0 sc st \<Longrightarrow> final_ok h0 l0 sc st"
  by (auto simp: relay_ok_def final_ok_def relay_inv_def streams_ok_def
                 idle_reading_def pending_write_def)

lemma final_ok_stop:
  "final_ok h0 l0 sc st \<Longrightarrow> Read 0 [] \<notin> set (rlog st) \<Longrightarrow>
   final_ok h0 l0 sc (st\<lparr>rlog := rlog st @ slip_stop e sc\<rparr>)"
  by (auto simp: final_ok_def read_from_append written_to_append)
     (auto simp: slip_stop_def interface_stop_def slip_release_def)

lemma slip_stop_no_read [simp]: "Read fd d \<notin> set (slip_stop e sc)"
  by (simp add: slip_stop_def interface_stop_def slip_release_def)

lemma stdin_readable_post:
  assumes ok: "relay_ok h0 l0 sc st" and m: "masterfd sc \<noteq> 0" "masterfd sc \<noteq> 1"
    and sub: "0 \<in> readfds \<longrightarrow> 0 \<in> rfds st"
  shows "post h0 l0 sc (stdin_readable e sc ev readfds st)"
proof (cases "0 \<in> readfds")
  case False
  with ok show ?thesis by (simp add: stdin_readable_def post_def)
next
  case True
  with sub have in0: "0 \<in> rfds st" by simp
  from ok in0 have idle: "idle_reading 0 (masterfd sc) (stdinbuf st) st"
    by (auto simp: relay_ok_def relay_inv_def pending_write_def)
  obtain l r where br: "bufread e sc 0 (stdinbuf st) (hin st) (rd_stdin ev) = (l, r)"
    by (cases "bufread e sc 0 (stdinbuf st) (hin st) (rd_stdin ev)")
  show ?thesis
  proof (cases r)
    case (Inl c)
    from bufread_Inl[OF br[unfolded Inl]] have l: "l = slip_stop e sc" by simp
    have "final_ok h0 l0 sc (st\<lparr>rlog := rlog st @ slip_stop e sc\<rparr>)"
      using ok by (intro final_ok_stop relay_ok_final) (auto simp: relay_ok_def)
    with True br Inl l show ?thesis by (simp add: stdin_readable_def post_def)
  next
    case (Inr p)
    obtain b' s' where p: "p = (b', s')" by (cases p)
    from bufread_Inr[OF br[unfolded Inr p]] obtain d where
      d: "l = [Read 0 d]" "len b' = int (length d)" "ptr b' = 0" "pending b' = d"
         "length d \<le> length (data b')" "bytes_of (hin st) = d @ bytes_of s'"
         "d = [] \<longleftrightarrow> hin st = []" by blast
    show ?thesis
    proof (cases "d = []")
      case True
      with d have e: "bytes_of (hin st) = []" by (simp add: bytes_of_def)
      have "final_ok h0 l0 sc (st\<lparr>stdinbuf := b', hin := s',
              rlog := (rlog st @ [Read 0 []]) @ slip_stop e sc\<rparr>)"
        using ok idle e m
        by (auto simp: final_ok_def relay_ok_def relay_inv_def streams_ok_def
              idle_reading_def pending_write_def read_from_append written_to_append)
      with \<open>0 \<in> readfds\<close> br Inr p d True show ?thesis
        by (simp add: stdin_readable_def post_def Let_def)
    next
      case False
      let ?st' = "st\<lparr>stdinbuf := b', hin := s', rlog := rlog st @ [Read 0 d],
                     wfds := insert (masterfd sc) (wfds st), rfds := rfds st - {0}\<rparr>"
      have p1: "pending_write 0 (masterfd sc) b' ?st'"
        using idle d False
        by (auto simp: idle_reading_def pending_write_def read_from_append written_to_append)
      have p2: "idle_reading (masterfd sc) 1 (stdoutbuf st) ?st'
              \<or> pending_write (masterfd sc) 1 (stdoutbuf st) ?st'"
        using ok m
        by (auto simp: relay_ok_def relay_inv_def idle_reading_def pending_write_def
                       read_from_append written_to_append)
      have p3: "streams_ok h0 l0 sc ?st'"
        using ok m d by (auto simp: relay_ok_def streams_ok_def read_from_append)
      have p4: "Read 0 [] \<notin> set (rlog ?st')"
        using ok False by (auto simp: relay_ok_def)
      have "relay_ok h0 l0 sc ?st'"
        using p1 p2 p3 p4 by (simp add: relay_ok_def relay_inv_def)
      with \<open>0 \<in> readfds\<close> br Inr p d False show ?thesis
        by (simp add: stdin_readable_def post_def Let_def)
    qed
  qed
qed


lemma stdin_readable_keeps:
  "stdin_readable e sc ev readfds st = (None, st') \<Longrightarrow> masterfd sc \<noteq> 0 \<Longrightarrow>
   (masterfd sc \<in> rfds st \<longrightarrow> masterfd sc \<in> rfds st') \<and> wfds st \<subseteq> wfds st'"
  by (auto simp: stdin_readable_def Let_def split: if_splits prod.splits sum.splits)

lemma link_readable_post:
  assumes ok: "relay_ok h0 l0 sc st" and m: "masterfd sc \<noteq> 0" "masterfd sc \<noteq> 1"
    and sub: "masterfd sc \<in> readfds \<longrightarrow> masterfd sc \<in> rfds st"
  shows "post h0 l0 sc (link_readable e sc ev readfds st)"
proof (cases "masterfd sc \<in> readfds")
  case False
  with ok show ?thesis by (simp add: link_readable_def post_def)
next
  case True
  with sub have inm: "masterfd sc \<in> rfds st" by simp
  from ok inm have idle: "idle_reading (masterfd sc) 1 (stdoutbuf st) st"
    by (auto simp: relay_ok_def relay_inv_def pending_write_def)
  obtain l r where br: "bufread e sc (masterfd sc) (stdoutbuf st) (lin st) (rd_link ev) = (l, r)"
    by (cases "bufread e sc (masterfd sc) (stdoutbuf st) (lin st) (rd_link ev)")
  show ?thesis
  proof (cases r)
    case (Inl c)
    from bufread_Inl[OF br[unfolded Inl]] have l: "l = slip_stop e sc" by simp
    have "final_ok h0 l0 sc (st\<lparr>rlog := rlog st @ slip_stop e sc\<rparr>)"
      using ok by (intro final_ok_stop relay_ok_final) (auto simp: relay_ok_def)
    with True br Inl l show ?thesis by (simp add: link_readable_def post_def)
  next
    case (Inr p)
    obtain b' s' where p: "p = (b', s')" by (cases p)
    from bufread_Inr[OF br[unfolded Inr p]] obtain d where
      d: "l = [Read (masterfd sc) d]" "len b' = int (length d)" "ptr b' = 0" "pending b' = d"
         "length d \<le> length (data b')" "bytes_of (lin st) = d @ bytes_of s'"
         "d = [] \<longleftrightarrow> lin st = []" by blast
    have p0: "idle_reading 0 (masterfd sc) (stdinbuf st) st
              \<or> pending_write 0 (masterfd sc) (stdinbuf st) st"
      using ok by (simp add: relay_ok_def relay_inv_def)
    show ?thesis
    proof (cases "d = []")
      case True
      let ?st' = "st\<lparr>stdoutbuf := b', lin := s', rlog := rlog st @ [Read (masterfd sc) []]\<rparr>"
      have p1: "idle_reading 0 (masterfd sc) (stdinbuf st) ?st'
              \<or> pending_write 0 (masterfd sc) (stdinbuf st) ?st'"
        using p0 m
        by (auto simp: idle_reading_def pending_write_def read_from_append written_to_append)
      have p2: "idle_reading (masterfd sc) 1 b' ?st'"
        using idle d True
        by (auto simp: idle_reading_def read_from_append written_to_append)
      have p3: "streams_ok h0 l0 sc ?st'"
        using ok m d True by (auto simp: relay_ok_def streams_ok_def read_from_append)
      have p4: "Read 0 [] \<notin> set (rlog ?st')"
        using ok m by (auto simp: relay_ok_def)
      have "relay_ok h0 l0 sc ?st'"
        using p1 p2 p3 p4 by (simp add: relay_ok_def relay_inv_def)
      with \<open>masterfd sc \<in> readfds\<close> br Inr p d True show ?thesis
        by (simp add: link_readable_def post_def Let_def)
    next
      case False
      let ?st' = "st\<lparr>stdoutbuf := b', lin := s', rlog := rlog st @ [Read (masterfd sc) d],
                     wfds := insert 1 (wfds st), rfds := rfds st - {masterfd sc}\<rparr>"
      have p1: "idle_reading 0 (masterfd sc) (stdinbuf st) ?st'
              \<or> pending_write 0 (masterfd sc) (stdinbuf st) ?st'"
        using p0 m
        by (auto simp: idle_reading_def pending_write_def read_from_append written_to_append)
      have p2: "pending_write (masterfd sc) 1 b' ?st'"
        using idle d False
        by (auto simp: idle_reading_def pending_write_def read_from_append written_to_append)
      have p3: "streams_ok h0 l0 sc ?st'"
        using ok m d by (auto simp: relay_ok_def streams_ok_def read_from_append)
      have p4: "Read 0 [] \<notin> set (rlog ?st')"
        using ok m by (auto simp: relay_ok_def)
      have "relay_ok h0 l0 sc ?st'"
        using p1 p2 p3 p4 by (simp add: relay_ok_def relay_inv_def)
      with \<open>masterfd sc \<in> readfds\<close> br Inr p d False show ?thesis
        by (simp add: link_readable_def post_def Let_def)
    qed
  qed
qed

lemma link_readable_keeps:
  "link_readable e sc ev readfds st = (None, st') \<Longrightarrow> wfds st \<subseteq> wfds st'"
  by (auto simp: link_readable_def Let_def split: if_splits prod.splits sum.splits)

lemma link_writable_post:
  assumes ok: "relay_ok h0 l0 sc st" and m: "masterfd sc \<noteq> 0" "masterfd sc \<noteq> 1"
    and sub: "masterfd sc \<in> writefds \<longrightarrow> masterfd sc \<in> wfds st"
  shows "post h0 l0 sc (link_writable e sc ev writefds st)"
proof (cases "masterfd sc \<in> writefds")
  case False
  with ok show ?thesis by (simp add: link_writable_def post_def)
next
  case True
  with sub have inm: "masterfd sc \<in> wfds st" by simp
  from ok inm have pw: "pending_write 0 (masterfd sc) (stdinbuf st) st"
    by (auto simp: relay_ok_def relay_inv_def idle_reading_def)
  obtain l r where bw: "bufwrite e sc (masterfd sc) (stdinbuf st) (wr_link ev) = (l, r)"
    by (cases "bufwrite e sc (masterfd sc) (stdinbuf st) (wr_link ev)")
  have p0: "idle_reading (masterfd sc) 1 (stdoutbuf st) st
            \<or> pending_write (masterfd sc) 1 (stdoutbuf st) st"
    using ok by (simp add: relay_ok_def relay_inv_def)
  show ?thesis
  proof (cases r)
    case (Inl c)
    from bufwrite_Inl[OF bw[unfolded Inl]] have l: "l = slip_stop e sc" by simp
    have "final_ok h0 l0 sc (st\<lparr>rlog := rlog st @ slip_stop e sc\<rparr>)"
      using ok by (intro final_ok_stop relay_ok_final) (auto simp: relay_ok_def)
    with True bw Inl l show ?thesis by (simp add: link_writable_def post_def)
  next
    case (Inr b')
    from pw have bnd: "ptr (stdinbuf st) + nat (len (stdinbuf st)) \<le> length (data (stdinbuf st))"
      by (simp add: pending_write_def)
    from bufwrite_Inr[OF bw[unfolded Inr] bnd] obtain w where
      w: "l = [Write (masterfd sc) w]" "w \<noteq> []" "pending (stdinbuf st) = w @ pending b'"
         "0 \<le> len b'" "len b' = 0 \<longrightarrow> pending b' = []"
         "ptr b' + nat (len b') \<le> length (data b')" by blast
    have p3: "\<And>st'. rlog st' = rlog st @ [Write (masterfd sc) w] \<Longrightarrow> hin st' = hin st \<Longrightarrow>
                lin st' = lin st \<Longrightarrow> streams_ok h0 l0 sc st' \<and> Read 0 [] \<notin> set (rlog st')"
      using ok by (auto simp: relay_ok_def streams_ok_def read_from_append)
    show ?thesis
    proof (cases "len b' = 0")
      case True
      let ?st' = "st\<lparr>stdinbuf := b', rlog := rlog st @ [Write (masterfd sc) w],
                     rfds := insert 0 (rfds st), wfds := wfds st - {masterfd sc}\<rparr>"
      have p1: "idle_reading 0 (masterfd sc) b' ?st'"
        using pw w True
        by (auto simp: idle_reading_def pending_write_def read_from_append written_to_append)
      have p2: "idle_reading (masterfd sc) 1 (stdoutbuf st) ?st'
              \<or> pending_write (masterfd sc) 1 (stdoutbuf st) ?st'"
        using p0 m
        by (auto simp: idle_reading_def pending_write_def read_from_append written_to_append)
      have "relay_ok h0 l0 sc ?st'"
        using p1 p2 p3[of ?st'] by (simp add: relay_ok_def relay_inv_def)
      with \<open>masterfd sc \<in> writefds\<close> bw Inr w True show ?thesis
        by (simp add: link_writable_def post_def Let_def)
    next
      case False
      let ?st' = "st\<lparr>stdinbuf := b', rlog := rlog st @ [Write (masterfd sc) w]\<rparr>"
      have p1: "pending_write 0 (masterfd sc) b' ?st'"
        using pw w False
        by (auto simp: pending_write_def read_from_append written_to_append)
      have p2: "idle_reading (masterfd sc) 1 (stdoutbuf st) ?st'
              \<or> pending_write (masterfd sc) 1 (stdoutbuf st) ?st'"
        using p0 m
        by (auto simp: idle_reading_def pending_write_def read_from_append written_to_append)
      have "relay_ok h0 l0 sc ?st'"
        using p1 p2 p3[of ?st'] by (simp add: relay_ok_def relay_inv_def)
      with \<open>masterfd sc \<in> writefds\<close> bw Inr w False show ?thesis
        by (simp add: link_writable_def post_def Let_def)
    qed
  qed
qed

lemma link_writable_keeps:
  "link_writable e sc ev writefds st = (None, st') \<Longrightarrow> masterfd sc \<noteq> 1 \<Longrightarrow>
   (1 \<in> wfds st \<longrightarrow> 1 \<in> wfds st')"
  by (auto simp: link_writable_def Let_def split: if_splits prod.splits sum.splits)

lemma stdout_writable_post:
  assumes ok: "relay_ok h0 l0 sc st" and m: "masterfd sc \<noteq> 0" "masterfd sc \<noteq> 1"
    and sub: "1 \<in> writefds \<longrightarrow> 1 \<in> wfds st"
  shows "post h0 l0 sc (stdout_writable e sc ev writefds st)"
proof (cases "1 \<in> writefds")
  case False
  with ok show ?thesis by (simp add: stdout_writable_def post_def)
next
  case True
  with sub have inm: "1 \<in> wfds st" by simp
  from ok inm have pw: "pending_write (masterfd sc) 1 (stdoutbuf st) st"
    by (auto simp: relay_ok_def relay_inv_def idle_reading_def)
  obtain l r where bw: "bufwrite e sc 1 (stdoutbuf st) (wr_stdout ev) = (l, r)"
    by (cases "bufwrite e sc 1 (stdoutbuf st) (wr_stdout ev)")
  have p0: "idle_reading 0 (masterfd sc) (stdinbuf st) st
            \<or> pending_write 0 (masterfd sc) (stdinbuf st) st"
    using ok by (simp add: relay_ok_def relay_inv_def)
  show ?thesis
  proof (cases r)
    case (Inl c)
    from bufwrite_Inl[OF bw[unfolded Inl]] have l: "l = slip_stop e sc" by simp
    have "final_ok h0 l0 sc (st\<lparr>rlog := rlog st @ slip_stop e sc\<rparr>)"
      using ok by (intro final_ok_stop relay_ok_final) (auto simp: relay_ok_def)
    with True bw Inl l show ?thesis by (simp add: stdout_writable_def post_def)
  next
    case (Inr b')
    from pw have bnd: "ptr (stdoutbuf st) + nat (len (stdoutbuf st)) \<le> length (data (stdoutbuf st))"
      by (simp add: pending_write_def)
    from bufwrite_Inr[OF bw[unfolded Inr] bnd] obtain w where
      w: "l = [Write 1 w]" "w \<noteq> []" "pending (stdoutbuf st) = w @ pending b'"
         "0 \<le> len b'" "len b' = 0 \<longrightarrow> pending b' = []"
         "ptr b' + nat (len b') \<le> length (data b')" by blast
    have p3: "\<And>st'. rlog st' = rlog st @ [Write 1 w] \<Longrightarrow> hin st' = hin st \<Longrightarrow>
                lin st' = lin st \<Longrightarrow> streams_ok h0 l0 sc st' \<and> Read 0 [] \<notin> set (rlog st')"
      using ok by (auto simp: relay_ok_def streams_ok_def read_from_append)
    show ?thesis
    proof (cases "len b' = 0")
      case True
      let ?st' = "st\<lparr>stdoutbuf := b', rlog := rlog st @ [Write 1 w],
                     rfds := insert (masterfd sc) (rfds st), wfds := wfds st - {1}\<rparr>"
      have p1: "idle_reading (masterfd sc) 1 b' ?st'"
        using pw w True
        by (auto simp: idle_reading_def pending_write_def read_from_append written_to_append)
      have p2: "idle_reading 0 (masterfd sc) (stdinbuf st) ?st'
              \<or> pending_write 0 (masterfd sc) (stdinbuf st) ?st'"
        using p0 m
        by (auto simp: idle_reading_def pending_write_def read_from_append written_to_append)
      have "relay_ok h0 l0 sc ?st'"
        using p1 p2 p3[of ?st'] by (simp add: relay_ok_def relay_inv_def)
      with \<open>1 \<in> writefds\<close> bw Inr w True show ?thesis
        by (simp add: stdout_writable_def post_def Let_def)
    next
      case False
      let ?st' = "st\<lparr>stdoutbuf := b', rlog := rlog st @ [Write 1 w]\<rparr>"
      have p1: "pending_write (masterfd sc) 1 b' ?st'"
        using pw w False
        by (auto simp: pending_write_def read_from_append written_to_append)
      have p2: "idle_reading 0 (masterfd sc) (stdinbuf st) ?st'
              \<or> pending_write 0 (masterfd sc) (stdinbuf st) ?st'"
        using p0 m
        by (auto simp: idle_reading_def pending_write_def read_from_append written_to_append)
      have "relay_ok h0 l0 sc ?st'"
        using p1 p2 p3[of ?st'] by (simp add: relay_ok_def relay_inv_def)
      with \<open>1 \<in> writefds\<close> bw Inr w False show ?thesis
        by (simp add: stdout_writable_def post_def Let_def)
    qed
  qed
qed

text \<open>The states a turn of the loop passes through: the state after each of its four
  steps, as far as the turn gets. \<open>relay_points\<close> are the states of the whole loop: the
  state at each test of \<^verbatim>\<open>go\<close> and the states inside each turn.\<close>

definition iter_points :: "env \<Rightarrow> slipconn \<Rightarrow> event \<Rightarrow> relay \<Rightarrow> relay list" where
  "iter_points e sc ev st =
     (case sel ev of
        Sel_err \<Rightarrow> []
      | Sel_ready R W \<Rightarrow>
          let readfds = readfds_of sc R st; writefds = writefds_of sc W st;
              p1 = stdin_readable e sc ev readfds st;
              p2 = then_do p1 (link_readable e sc ev readfds);
              p3 = then_do p2 (link_writable e sc ev writefds);
              p4 = then_do p3 (stdout_writable e sc ev writefds)
          in map snd (filter (\<lambda>p. fst p = None) [p1, p2, p3, p4]))"

fun relay_points :: "env \<Rightarrow> slipconn \<Rightarrow> bool \<Rightarrow> event list \<Rightarrow> relay \<Rightarrow> relay list" where
  "relay_points e sc False evs st = [st]"
| "relay_points e sc True [] st = [st]"
| "relay_points e sc True (ev # evs) st =
     st # iter_points e sc ev st @
       (case relay_iter e sc ev st of
          (Some c, st') \<Rightarrow> []
        | (None, st') \<Rightarrow> relay_points e sc (\<not> signal ev) evs st')"

definition main_points :: "env \<Rightarrow> relay list" where
  "main_points e =
     (case login e (sc_init e) of
        Inl c \<Rightarrow> []
      | Inr (sc1, s) \<Rightarrow>
          (case slip_start e sc1 of
             (l, Inl c) \<Rightarrow> []
           | (l, Inr sc2) \<Rightarrow>
               relay_points e sc2 (go_init e) (events e) (relay_init e sc2 s)))"

lemma post_then_do:
  "post h0 l0 sc p \<Longrightarrow> (\<And>st. p = (None, st) \<Longrightarrow> relay_ok h0 l0 sc st \<Longrightarrow> post h0 l0 sc (f st))
   \<Longrightarrow> post h0 l0 sc (then_do p f)"
  by (cases p) (auto simp: then_do_def post_def split: option.splits)

lemma then_do_None:
  "then_do p f = (None, st') \<Longrightarrow> \<exists>st. p = (None, st) \<and> f st = (None, st')"
  by (cases p) (auto simp: then_do_def split: option.splits)

lemma relay_iter_chain:
  fixes e :: env and sc :: slipconn and ev :: event and R W :: "int set" and st :: relay
  assumes ok: "relay_ok h0 l0 sc st" and m: "masterfd sc \<noteq> 0" "masterfd sc \<noteq> 1"
  defines "readfds \<equiv> readfds_of sc R st" and "writefds \<equiv> writefds_of sc W st"
  defines "p1 \<equiv> stdin_readable e sc ev readfds st"
  defines "p2 \<equiv> then_do p1 (link_readable e sc ev readfds)"
  defines "p3 \<equiv> then_do p2 (link_writable e sc ev writefds)"
  defines "p4 \<equiv> then_do p3 (stdout_writable e sc ev writefds)"
  shows "post h0 l0 sc p1 \<and> post h0 l0 sc p2 \<and> post h0 l0 sc p3 \<and> post h0 l0 sc p4"
proof -
  have r0: "0 \<in> readfds \<longrightarrow> 0 \<in> rfds st" and rm: "masterfd sc \<in> readfds \<longrightarrow> masterfd sc \<in> rfds st"
    by (auto simp: readfds_def readfds_of_def)
  have wm: "masterfd sc \<in> writefds \<longrightarrow> masterfd sc \<in> wfds st"
    and w1: "1 \<in> writefds \<longrightarrow> 1 \<in> wfds st"
    by (auto simp: writefds_def writefds_of_def)
  have 1: "post h0 l0 sc p1"
    unfolding p1_def by (rule stdin_readable_post[OF ok m r0])
  have 2: "post h0 l0 sc p2"
    unfolding p2_def
  proof (rule post_then_do[OF 1])
    fix st1 assume a: "p1 = (None, st1)" and ok1: "relay_ok h0 l0 sc st1"
    from stdin_readable_keeps[OF a[unfolded p1_def] m(1)] rm
    have "masterfd sc \<in> readfds \<longrightarrow> masterfd sc \<in> rfds st1" by blast
    from link_readable_post[OF ok1 m this]
    show "post h0 l0 sc (link_readable e sc ev readfds st1)" .
  qed
  have 3: "post h0 l0 sc p3"
    unfolding p3_def
  proof (rule post_then_do[OF 2])
    fix st2 assume a: "p2 = (None, st2)" and ok2: "relay_ok h0 l0 sc st2"
    from then_do_None[OF a[unfolded p2_def]] obtain st1 where
      s1: "p1 = (None, st1)" and s2: "link_readable e sc ev readfds st1 = (None, st2)"
      by blast
    from stdin_readable_keeps[OF s1[unfolded p1_def] m(1)] link_readable_keeps[OF s2] wm
    have "masterfd sc \<in> writefds \<longrightarrow> masterfd sc \<in> wfds st2" by blast
    from link_writable_post[OF ok2 m this]
    show "post h0 l0 sc (link_writable e sc ev writefds st2)" .
  qed
  have 4: "post h0 l0 sc p4"
    unfolding p4_def
  proof (rule post_then_do[OF 3])
    fix st3 assume a: "p3 = (None, st3)" and ok3: "relay_ok h0 l0 sc st3"
    from then_do_None[OF a[unfolded p3_def]] obtain st2 where
      s2: "p2 = (None, st2)" and s3: "link_writable e sc ev writefds st2 = (None, st3)"
      by blast
    from then_do_None[OF s2[unfolded p2_def]] obtain st1 where
      s1: "p1 = (None, st1)" and s2': "link_readable e sc ev readfds st1 = (None, st2)"
      by blast
    from stdin_readable_keeps[OF s1[unfolded p1_def] m(1)] link_readable_keeps[OF s2']
      link_writable_keeps[OF s3 m(2)] w1
    have "1 \<in> writefds \<longrightarrow> 1 \<in> wfds st3" by blast
    from stdout_writable_post[OF ok3 m this]
    show "post h0 l0 sc (stdout_writable e sc ev writefds st3)" .
  qed
  from 1 2 3 4 show ?thesis by simp
qed

lemma relay_iter_post:
  assumes "relay_ok h0 l0 sc st" and "masterfd sc \<noteq> 0" "masterfd sc \<noteq> 1"
  shows "post h0 l0 sc (relay_iter e sc ev st)"
proof (cases "sel ev")
  case Sel_err
  with assms(1) show ?thesis by (simp add: relay_iter_def post_def)
next
  case (Sel_ready R W)
  with relay_iter_chain[OF assms, where R=R and W=W and e=e and ev=ev] show ?thesis
    by (simp add: relay_iter_def Let_def)
qed

lemma points_ok:
  "\<forall>q \<in> set qs. post h0 l0 sc q \<Longrightarrow> p \<in> set (map snd (filter (\<lambda>p. fst p = None) qs)) \<Longrightarrow>
   relay_ok h0 l0 sc p"
  by (auto simp: post_def split: prod.splits option.splits)

lemma iter_points_ok:
  assumes "relay_ok h0 l0 sc st" and "masterfd sc \<noteq> 0" "masterfd sc \<noteq> 1"
    and "p \<in> set (iter_points e sc ev st)"
  shows "relay_ok h0 l0 sc p"
proof (cases "sel ev")
  case Sel_err
  with assms(4) show ?thesis by (simp add: iter_points_def)
next
  case (Sel_ready R W)
  define p1 where "p1 = stdin_readable e sc ev (readfds_of sc R st) st"
  define p2 where "p2 = then_do p1 (link_readable e sc ev (readfds_of sc R st))"
  define p3 where "p3 = then_do p2 (link_writable e sc ev (writefds_of sc W st))"
  define p4 where "p4 = then_do p3 (stdout_writable e sc ev (writefds_of sc W st))"
  from relay_iter_chain[OF assms(1-3), where R=R and W=W and e=e and ev=ev]
  have "\<forall>q \<in> set [p1, p2, p3, p4]. post h0 l0 sc q"
    by (simp add: p1_def p2_def p3_def p4_def)
  moreover have "p \<in> set (map snd (filter (\<lambda>p. fst p = None) [p1, p2, p3, p4]))"
    using assms(4) Sel_ready
    by (simp only: iter_points_def Let_def p1_def p2_def p3_def p4_def select_r.case)
  ultimately show ?thesis by (rule points_ok)
qed

lemma relay_loop_ok:
  "masterfd sc \<noteq> 0 \<Longrightarrow> masterfd sc \<noteq> 1 \<Longrightarrow> relay_ok h0 l0 sc st \<Longrightarrow>
     final_ok h0 l0 sc (snd (relay_loop e sc go evs st))
   \<and> (\<forall>p \<in> set (relay_points e sc go evs st). relay_ok h0 l0 sc p)"
proof (induction e sc go evs st rule: relay_loop.induct)
  case (1 e sc evs st)
  from "1.prems"(3) have "Read 0 [] \<notin> set (rlog st)" by (simp add: relay_ok_def)
  from final_ok_stop[OF relay_ok_final[OF "1.prems"(3)] this, of e] "1.prems"(3)
  show ?case by simp
next
  case (2 e sc st)
  then show ?case by (auto intro: relay_ok_final)
next
  case (3 e sc ev evs st)
  note m = "3.prems"(1,2)
  from relay_iter_post[OF "3.prems"(3) m, of e ev] have po: "post h0 l0 sc (relay_iter e sc ev st)" .
  have ip: "\<forall>p \<in> set (iter_points e sc ev st). relay_ok h0 l0 sc p"
    using iter_points_ok[OF "3.prems"(3) m] by blast
  obtain r st' where ri: "relay_iter e sc ev st = (r, st')" by (cases "relay_iter e sc ev st")
  show ?case
  proof (cases r)
    case None
    with po ri have "relay_ok h0 l0 sc st'" by (simp add: post_def)
    from "3.IH"[OF ri[unfolded None, symmetric] refl m this] ip "3.prems"(3) ri None
    show ?thesis by auto
  next
    case (Some c)
    with po ri have "final_ok h0 l0 sc st'" by (simp add: post_def)
    with ip "3.prems"(3) ri Some show ?thesis by auto
  qed
qed

lemma relay_init_ok: "masterfd sc \<noteq> 0 \<Longrightarrow> masterfd sc \<noteq> 1 \<Longrightarrow> relay_ok s (link_in e) sc (relay_init e sc s)"
  by (simp add: relay_ok_def relay_inv_def streams_ok_def relay_init_def idle_reading_def)

section \<open>The shape of a run\<close>

text \<open>A step of the relay only reads and writes, and when the process exits in it, the
  status is 0 or 1 and the last thing done is \<^verbatim>\<open>slip_stop\<close>.\<close>

definition extends :: "env \<Rightarrow> slipconn \<Rightarrow> relay \<Rightarrow> status option \<times> relay \<Rightarrow> bool" where
  "extends e sc st p =
     (case p of
        (None, st') \<Rightarrow> \<exists>io. list_all is_io io \<and> rlog st' = rlog st @ io
      | (Some c, st') \<Rightarrow>
          (c = Exit 0 \<or> c = Exit 1)
          \<and> (\<exists>io. list_all is_io io \<and> rlog st' = rlog st @ io @ slip_stop e sc))"

lemma extends_refl: "extends e sc st (None, st)"
  by (simp add: extends_def)

lemma bufread_log:
  "bufread e sc fd b s k = (l, r) \<Longrightarrow>
   (case r of Inl c \<Rightarrow> c = Exit 1 \<and> l = slip_stop e sc | Inr x \<Rightarrow> list_all is_io l)"
  by (auto simp: bufread_def Let_def split: if_splits prod.splits sum.splits)

lemma bufwrite_log:
  "bufwrite e sc fd b a = (l, r) \<Longrightarrow>
   (case r of Inl c \<Rightarrow> c = Exit 1 \<and> l = slip_stop e sc | Inr x \<Rightarrow> list_all is_io l)"
  by (auto simp: bufwrite_def Let_def split: if_splits prod.splits sum.splits)

lemma extends_exit: "extends e sc st (Some (Exit 1), st\<lparr>rlog := rlog st @ slip_stop e sc\<rparr>)"
  by (auto simp: extends_def intro: exI[of _ "[]"])

lemma stdin_readable_extends: "extends e sc st (stdin_readable e sc ev readfds st)"
proof (cases "0 \<in> readfds")
  case False
  then show ?thesis by (simp add: stdin_readable_def extends_refl)
next
  case True
  obtain l r where br: "bufread e sc 0 (stdinbuf st) (hin st) (rd_stdin ev) = (l, r)"
    by (cases "bufread e sc 0 (stdinbuf st) (hin st) (rd_stdin ev)")
  show ?thesis
  proof (cases r)
    case (Inl c)
    with bufread_log[OF br] True br show ?thesis
      by (simp add: stdin_readable_def extends_exit)
  next
    case (Inr p)
    obtain b' s' where p: "p = (b', s')" by (cases p)
    from bufread_log[OF br] Inr have io: "list_all is_io l" by simp
    show ?thesis
    proof (cases "len b' = 0")
      case True
      have "\<exists>io. list_all is_io io \<and> (rlog st @ l) @ slip_stop e sc = rlog st @ io @ slip_stop e sc"
        using io by (intro exI[of _ l]) simp
      with \<open>0 \<in> readfds\<close> br Inr p True show ?thesis
        by (simp add: stdin_readable_def extends_def Let_def)
    next
      case False
      with \<open>0 \<in> readfds\<close> br Inr p io show ?thesis
        by (auto simp: stdin_readable_def extends_def Let_def)
    qed
  qed
qed

lemma link_readable_extends: "extends e sc st (link_readable e sc ev readfds st)"
proof (cases "masterfd sc \<in> readfds")
  case False
  then show ?thesis by (simp add: link_readable_def extends_refl)
next
  case True
  obtain l r where br: "bufread e sc (masterfd sc) (stdoutbuf st) (lin st) (rd_link ev) = (l, r)"
    by (cases "bufread e sc (masterfd sc) (stdoutbuf st) (lin st) (rd_link ev)")
  show ?thesis
  proof (cases r)
    case (Inl c)
    with bufread_log[OF br] True br show ?thesis
      by (simp add: link_readable_def extends_exit)
  next
    case (Inr p)
    obtain b' s' where p: "p = (b', s')" by (cases p)
    from bufread_log[OF br] Inr have io: "list_all is_io l" by simp
    with True br Inr p show ?thesis
      by (auto simp: link_readable_def extends_def Let_def)
  qed
qed

lemma link_writable_extends: "extends e sc st (link_writable e sc ev writefds st)"
proof (cases "masterfd sc \<in> writefds")
  case False
  then show ?thesis by (simp add: link_writable_def extends_refl)
next
  case True
  obtain l r where bw: "bufwrite e sc (masterfd sc) (stdinbuf st) (wr_link ev) = (l, r)"
    by (cases "bufwrite e sc (masterfd sc) (stdinbuf st) (wr_link ev)")
  show ?thesis
  proof (cases r)
    case (Inl c)
    with bufwrite_log[OF bw] True bw show ?thesis
      by (simp add: link_writable_def extends_exit)
  next
    case (Inr b')
    from bufwrite_log[OF bw] Inr have io: "list_all is_io l" by simp
    with True bw Inr show ?thesis
      by (auto simp: link_writable_def extends_def Let_def)
  qed
qed

lemma stdout_writable_extends: "extends e sc st (stdout_writable e sc ev writefds st)"
proof (cases "1 \<in> writefds")
  case False
  then show ?thesis by (simp add: stdout_writable_def extends_refl)
next
  case True
  obtain l r where bw: "bufwrite e sc 1 (stdoutbuf st) (wr_stdout ev) = (l, r)"
    by (cases "bufwrite e sc 1 (stdoutbuf st) (wr_stdout ev)")
  show ?thesis
  proof (cases r)
    case (Inl c)
    with bufwrite_log[OF bw] True bw show ?thesis
      by (simp add: stdout_writable_def extends_exit)
  next
    case (Inr b')
    from bufwrite_log[OF bw] Inr have io: "list_all is_io l" by simp
    with True bw Inr show ?thesis
      by (auto simp: stdout_writable_def extends_def Let_def)
  qed
qed

lemma extends_then_do:
  assumes "extends e sc st p" and "\<And>st1. extends e sc st1 (f st1)"
  shows "extends e sc st (then_do p f)"
proof (cases p)
  case (Pair r st1)
  show ?thesis
  proof (cases r)
    case (Some c)
    with Pair assms(1) show ?thesis by (simp add: then_do_def)
  next
    case None
    with Pair assms(1) obtain io1 where io1: "list_all is_io io1" "rlog st1 = rlog st @ io1"
      by (auto simp: extends_def)
    obtain r2 st2 where f: "f st1 = (r2, st2)" by (cases "f st1")
    from assms(2)[of st1] f have e2: "extends e sc st1 (r2, st2)" by simp
    show ?thesis
    proof (cases r2)
      case None
      with e2 obtain io2 where "list_all is_io io2" "rlog st2 = rlog st1 @ io2"
        by (auto simp: extends_def)
      with io1 have "list_all is_io (io1 @ io2) \<and> rlog st2 = rlog st @ io1 @ io2" by simp
      then have "extends e sc st (None, st2)" unfolding extends_def by (simp only: prod.case option.case) blast
      with Pair \<open>r = None\<close> f None show ?thesis by (simp add: then_do_def)
    next
      case (Some c)
      with e2 obtain io2 where c: "c = Exit 0 \<or> c = Exit 1" and
        "list_all is_io io2" "rlog st2 = rlog st1 @ io2 @ slip_stop e sc"
        by (auto simp: extends_def)
      with io1 have "list_all is_io (io1 @ io2) \<and> rlog st2 = rlog st @ (io1 @ io2) @ slip_stop e sc"
        by simp
      then have "\<exists>io. list_all is_io io \<and> rlog st2 = rlog st @ io @ slip_stop e sc" by blast
      with c have "extends e sc st (Some c, st2)" by (simp add: extends_def)
      with Pair \<open>r = None\<close> f Some show ?thesis by (simp add: then_do_def)
    qed
  qed
qed

lemma relay_iter_extends: "extends e sc st (relay_iter e sc ev st)"
proof (cases "sel ev")
  case Sel_err
  then show ?thesis by (simp add: relay_iter_def extends_refl)
next
  case (Sel_ready R W)
  then show ?thesis
    by (simp add: relay_iter_def Let_def)
       (intro extends_then_do stdin_readable_extends link_readable_extends
              link_writable_extends stdout_writable_extends)
qed

lemma relay_loop_log:
  "relay_loop e sc go evs st = (c, st') \<Longrightarrow>
   \<exists>io. list_all is_io io \<and>
     ((c = Running \<and> rlog st' = rlog st @ io)
      \<or> ((c = Exit 0 \<or> c = Exit 1) \<and> rlog st' = rlog st @ io @ slip_stop e sc))"
proof (induction e sc go evs st rule: relay_loop.induct)
  case (1 e sc evs st)
  then show ?case by (auto intro: exI[of _ "[]"])
next
  case (2 e sc st)
  then show ?case by (auto intro: exI[of _ "[]"])
next
  case (3 e sc ev evs st)
  obtain r st1 where ri: "relay_iter e sc ev st = (r, st1)" by (cases "relay_iter e sc ev st")
  from relay_iter_extends[of e sc st ev] ri have ex: "extends e sc st (r, st1)" by simp
  show ?case
  proof (cases r)
    case (Some c')
    with ex ri "3.prems" show ?thesis by (auto simp: extends_def)
  next
    case None
    with ex obtain io1 where io1: "list_all is_io io1" "rlog st1 = rlog st @ io1"
      by (auto simp: extends_def)
    from "3.prems" ri None have "relay_loop e sc (\<not> signal ev) evs st1 = (c, st')" by simp
    from "3.IH"[OF ri[unfolded None, symmetric] refl this] obtain io2 where
      io2: "list_all is_io io2"
        "(c = Running \<and> rlog st' = rlog st1 @ io2)
         \<or> ((c = Exit 0 \<or> c = Exit 1) \<and> rlog st' = rlog st1 @ io2 @ slip_stop e sc)" by blast
    from io1 io2 have "list_all is_io (io1 @ io2) \<and>
        ((c = Running \<and> rlog st' = rlog st @ (io1 @ io2))
         \<or> ((c = Exit 0 \<or> c = Exit 1) \<and> rlog st' = rlog st @ (io1 @ io2) @ slip_stop e sc))"
      by auto
    then show ?thesis by blast
  qed
qed

text \<open>The three ways a run can go: \<^verbatim>\<open>login\<close> ends it, \<^verbatim>\<open>slip_start\<close> ends it, or it
  reaches the relay loop.\<close>

lemma main_cases:
  assumes "main e = (c, l)"
  shows "(login e (sc_init e) = Inl c \<and> l = [] \<and> (c = Exit 1 \<or> c = Fault))
       \<or> (\<exists>sc1 s. login e (sc_init e) = Inr (sc1, s) \<and> slip_start e sc1 = (l, Inl c)
            \<and> c = Exit 1 \<and> list_all setup_only l)
       \<or> (\<exists>sc1 s l0 sc2 st' io.
            login e (sc_init e) = Inr (sc1, s) \<and> slip_start e sc1 = (l0, Inr sc2)
            \<and> relay_loop e sc2 (go_init e) (events e) (relay_init e sc2 s) = (c, st')
            \<and> l = l0 @ rlog st' \<and> list_all is_io io
            \<and> ((c = Running \<and> rlog st' = io)
               \<or> ((c = Exit 0 \<or> c = Exit 1) \<and> rlog st' = io @ slip_stop e sc2)))"
proof (cases "login e (sc_init e)")
  case (Inl c')
  with assms login_Inl[OF Inl] show ?thesis by (auto simp: main_def)
next
  case (Inr p)
  obtain sc1 s where p: "p = (sc1, s)" by (cases p)
  obtain l0 r where ss: "slip_start e sc1 = (l0, r)" by (cases "slip_start e sc1")
  show ?thesis
  proof (cases r)
    case (Inl c')
    with assms Inr p ss slip_start_Inl[OF ss[unfolded Inl]] show ?thesis
      by (auto simp: main_def)
  next
    case (Inr sc2)
    obtain c' st' where rl: "relay_loop e sc2 (go_init e) (events e) (relay_init e sc2 s) = (c', st')"
      by (cases "relay_loop e sc2 (go_init e) (events e) (relay_init e sc2 s)")
    from relay_loop_log[OF rl] obtain io where io: "list_all is_io io"
      "(c' = Running \<and> rlog st' = io) \<or> ((c' = Exit 0 \<or> c' = Exit 1) \<and> rlog st' = io @ slip_stop e sc2)"
      by (auto simp: relay_init_def)
    from assms \<open>login e (sc_init e) = Inr p\<close> p ss Inr rl have "c = c'" "l = l0 @ rlog st'"
      by (simp_all add: main_def)
    with \<open>login e (sc_init e) = Inr p\<close> p ss Inr rl io show ?thesis by blast
  qed
qed

section \<open>The relay: states of a direction and fidelity\<close>

lemma slip_start_no_io:
  "slip_start e sc = (l, Inr sc') \<Longrightarrow>
   read_from fd l = [] \<and> written_to fd l = [] \<and> Read 0 [] \<notin> set l \<and> masterfd sc' = getpt_r e"
  by (drule slip_start_Inr) simp

lemma main_points_ok:
  assumes "getpt_r e \<noteq> 0" "getpt_r e \<noteq> 1" and "st \<in> set (main_points e)"
  shows "\<exists>sc1 s l0 sc2. login e (sc_init e) = Inr (sc1, s) \<and> slip_start e sc1 = (l0, Inr sc2)
           \<and> masterfd sc2 = getpt_r e \<and> relay_ok s (link_in e) sc2 st"
proof -
  from assms(3) obtain sc1 s where lg: "login e (sc_init e) = Inr (sc1, s)"
    by (cases "login e (sc_init e)") (auto simp: main_points_def)
  obtain l0 r where ss: "slip_start e sc1 = (l0, r)" by (cases "slip_start e sc1")
  from assms(3) lg ss obtain sc2 where r: "r = Inr sc2"
    by (cases r) (auto simp: main_points_def)
  from slip_start_no_io[OF ss[unfolded r]] have m: "masterfd sc2 = getpt_r e" by simp
  from assms(3) lg ss r have "st \<in> set (relay_points e sc2 (go_init e) (events e) (relay_init e sc2 s))"
    by (simp add: main_points_def)
  moreover have "relay_ok s (link_in e) sc2 (relay_init e sc2 s)"
    using assms(1,2) m by (intro relay_init_ok) simp_all
  ultimately have "relay_ok s (link_in e) sc2 st"
    using relay_loop_ok[of sc2 s "link_in e" "relay_init e sc2 s" e "go_init e" "events e"] assms(1,2) m
    by auto
  with lg ss r m show ?thesis by blast
qed

lemma idle_not_pending: "idle_reading src dst b st \<Longrightarrow> \<not> pending_write src dst b st"
  by (simp add: idle_reading_def pending_write_def)

text \<open>
  C4. At every point of the relay loop (at each test of \<^verbatim>\<open>go\<close> and after each of the four
  steps of a turn), each direction is in exactly one of two states: idle, its source
  registered for reading and no byte read from it unwritten (the buffer is empty); or
  pending, its source not registered, its destination registered for writing, and the
  bytes read and not yet written held in the one buffer of the direction. So a source is
  never registered for reading while the buffer of its direction holds unwritten bytes.
  The master descriptor is not 0 or 1, which are the open descriptors of the host.
\<close>

theorem relay_direction_states:
  assumes "getpt_r e \<noteq> 0" and "getpt_r e \<noteq> 1"
  shows "\<forall>st \<in> set (main_points e).
     (idle_reading 0 (getpt_r e) (stdinbuf st) st \<noteq> pending_write 0 (getpt_r e) (stdinbuf st) st)
   \<and> (idle_reading (getpt_r e) 1 (stdoutbuf st) st
        \<noteq> pending_write (getpt_r e) 1 (stdoutbuf st) st)"
proof
  fix st assume "st \<in> set (main_points e)"
  from main_points_ok[OF assms this] obtain sc2 s where
    m: "masterfd sc2 = getpt_r e" and ok: "relay_ok s (link_in e) sc2 st" by blast
  from ok have "relay_inv sc2 st" by (simp add: relay_ok_def)
  then show "(idle_reading 0 (getpt_r e) (stdinbuf st) st \<noteq> pending_write 0 (getpt_r e) (stdinbuf st) st)
   \<and> (idle_reading (getpt_r e) 1 (stdoutbuf st) st
        \<noteq> pending_write (getpt_r e) 1 (stdoutbuf st) st)"
    unfolding relay_inv_def m using idle_not_pending by blast
qed

text \<open>The claim C1 in the words of the specification: what the relay has written to the
  link is the host stream after the address line, and what it has written to host output
  is what it has read from the link.\<close>

definition after_address :: "env \<Rightarrow> item list" where
  "after_address e = snd (snd (readline (host_in e) (remoteip (sc_init e)) 64))"

definition relay_faithful :: "env \<Rightarrow> bool" where
  "relay_faithful e =
     (case main e of (c, l) \<Rightarrow>
        written_to (getpt_r e) l = bytes_of (after_address e)
        \<and> written_to 1 l = read_from (getpt_r e) l)"

lemma login_after_address:
  "login e (sc_init e) = Inr (sc1, s) \<Longrightarrow> after_address e = s"
  by (drule login_Inr) (auto simp: after_address_def)

text \<open>
  C1. Claim: every byte fed to host input after the address line is written to the link,
  and every byte read from the link is written to host output, with no loss,
  duplication or reordering, provided no read or write fails. As amended: in every run
  that reaches the relay, at every point of the loop and at the end of the run, the bytes
  written to the link are a prefix of the bytes read from host input, which are a prefix
  of the host stream after the address line; the bytes read and not yet written are
  exactly the pending bytes of the buffer of the direction; and the same holds from the
  link to host output. So nothing is duplicated, reordered or changed, and nothing is
  lost while the relay runs. When the run ends on end-of-stream of host input, the whole
  host stream after the address line has been written to the link. Bytes still pending
  in a buffer when the process shuts down are not written.
\<close>

theorem relay_fidelity:
  assumes "getpt_r e \<noteq> 0" and "getpt_r e \<noteq> 1"
    and "login e (sc_init e) = Inr (sc1, s)" and "slip_start e sc1 = (l0, Inr sc2)"
  shows "after_address e = s
   \<and> (\<exists>p. read_from 0 (snd (main e)) = written_to (getpt_r e) (snd (main e)) @ p)
   \<and> (\<exists>q. read_from (getpt_r e) (snd (main e)) = written_to 1 (snd (main e)) @ q)
   \<and> (\<exists>t. bytes_of s = read_from 0 (snd (main e)) @ t)
   \<and> (\<exists>t. bytes_of (link_in e) = read_from (getpt_r e) (snd (main e)) @ t)
   \<and> (Read 0 [] \<in> set (snd (main e)) \<longrightarrow> written_to (getpt_r e) (snd (main e)) = bytes_of s)
   \<and> (\<forall>st \<in> set (main_points e).
         read_from 0 (rlog st) = written_to (getpt_r e) (rlog st)
            @ (if pending_write 0 (getpt_r e) (stdinbuf st) st then pending (stdinbuf st) else [])
       \<and> read_from (getpt_r e) (rlog st) = written_to 1 (rlog st)
            @ (if pending_write (getpt_r e) 1 (stdoutbuf st) st then pending (stdoutbuf st) else [])
       \<and> bytes_of s = read_from 0 (rlog st) @ bytes_of (hin st)
       \<and> bytes_of (link_in e) = read_from (getpt_r e) (rlog st) @ bytes_of (lin st))"
proof -
  note io = slip_start_no_io[OF assms(4)]
  from io have m: "masterfd sc2 = getpt_r e" by simp
  obtain c st' where rl: "relay_loop e sc2 (go_init e) (events e) (relay_init e sc2 s) = (c, st')"
    by (cases "relay_loop e sc2 (go_init e) (events e) (relay_init e sc2 s)")
  have mn: "snd (main e) = l0 @ rlog st'"
    using assms(3,4) rl by (simp add: main_def)
  have ini: "relay_ok s (link_in e) sc2 (relay_init e sc2 s)"
    using assms(1,2) m by (intro relay_init_ok) simp_all
  from relay_loop_ok[of sc2 s "link_in e" "relay_init e sc2 s" e "go_init e" "events e"] ini assms(1,2) m rl
  have fin: "final_ok s (link_in e) sc2 st'" by simp
  have rd: "\<And>fd. read_from fd (snd (main e)) = read_from fd (rlog st')"
    and wr: "\<And>fd. written_to fd (snd (main e)) = written_to fd (rlog st')"
    using io by (simp_all add: mn read_from_append written_to_append)
  have eof: "Read 0 [] \<in> set (snd (main e)) \<longleftrightarrow> Read 0 [] \<in> set (rlog st')"
    using io by (auto simp: mn)
  have pts: "\<forall>st \<in> set (main_points e).
         read_from 0 (rlog st) = written_to (getpt_r e) (rlog st)
            @ (if pending_write 0 (getpt_r e) (stdinbuf st) st then pending (stdinbuf st) else [])
       \<and> read_from (getpt_r e) (rlog st) = written_to 1 (rlog st)
            @ (if pending_write (getpt_r e) 1 (stdoutbuf st) st then pending (stdoutbuf st) else [])
       \<and> bytes_of s = read_from 0 (rlog st) @ bytes_of (hin st)
       \<and> bytes_of (link_in e) = read_from (getpt_r e) (rlog st) @ bytes_of (lin st)"
  proof
    fix st assume "st \<in> set (main_points e)"
    from main_points_ok[OF assms(1,2) this] assms(3,4) have ok: "relay_ok s (link_in e) sc2 st"
      by auto
    then show "read_from 0 (rlog st) = written_to (getpt_r e) (rlog st)
            @ (if pending_write 0 (getpt_r e) (stdinbuf st) st then pending (stdinbuf st) else [])
       \<and> read_from (getpt_r e) (rlog st) = written_to 1 (rlog st)
            @ (if pending_write (getpt_r e) 1 (stdoutbuf st) st then pending (stdoutbuf st) else [])
       \<and> bytes_of s = read_from 0 (rlog st) @ bytes_of (hin st)
       \<and> bytes_of (link_in e) = read_from (getpt_r e) (rlog st) @ bytes_of (lin st)"
      unfolding relay_ok_def relay_inv_def streams_ok_def m
      using idle_not_pending by (auto simp: idle_reading_def pending_write_def)
  qed
  from fin show ?thesis
    unfolding final_ok_def m rd wr eof
    using login_after_address[OF assms(3)] pts by (auto split: if_splits)
qed

section \<open>Teardown and exit status\<close>

text \<open>An execution of Link Teardown starts with the deactivation command, so the number
  of these commands in a run is the number of times teardown was executed.\<close>

fun is_deactivation :: "action \<Rightarrow> bool" where
  "is_deactivation (System Interface_stop cmd) = True"
| "is_deactivation a = False"

definition teardowns :: "action list \<Rightarrow> nat" where
  "teardowns l = length (filter is_deactivation l)"

definition reaches_relay :: "env \<Rightarrow> bool" where
  "reaches_relay e =
     (case login e (sc_init e) of
        Inl c \<Rightarrow> False
      | Inr (sc1, s) \<Rightarrow> (case slip_start e sc1 of (l, Inl c) \<Rightarrow> False | (l, Inr sc2) \<Rightarrow> True))"

lemma teardowns_append: "teardowns (l @ l') = teardowns l + teardowns l'"
  by (simp add: teardowns_def)

lemma teardowns_io: "list_all is_io l \<Longrightarrow> teardowns l = 0"
  by (induction l) (auto simp: teardowns_def elim: is_io.elims)

lemma teardowns_setup: "list_all setup_only l \<Longrightarrow> teardowns l = 0"
  by (induction l) (auto simp: teardowns_def elim: setup_only.elims)

lemma teardowns_slip_stop: "teardowns (slip_stop e sc) = 1"
  by (simp add: teardowns_def slip_stop_def interface_stop_def slip_release_def)

lemma teardowns_slip_start: "slip_start e sc = (l, Inr sc') \<Longrightarrow> teardowns l = 0"
  by (drule slip_start_Inr) (simp add: teardowns_def)

lemma main_login: "login e (sc_init e) = Inl c \<Longrightarrow> main e = (c, []) \<and> (c = Exit 1 \<or> c = Fault)"
  using login_Inl[of e "sc_init e" c] by (simp add: main_def)

lemma main_setup:
  "login e (sc_init e) = Inr (sc1, s) \<Longrightarrow> slip_start e sc1 = (l, Inl c) \<Longrightarrow>
   main e = (Exit 1, l) \<and> c = Exit 1 \<and> list_all setup_only l"
  using slip_start_Inl[of e sc1 l c] by (simp add: main_def)

lemma main_relay:
  assumes "login e (sc_init e) = Inr (sc1, s)" and "slip_start e sc1 = (l0, Inr sc2)"
  obtains c and st' :: relay and io where "main e = (c, l0 @ rlog st')" and "list_all is_io io"
    and "(c = Running \<and> rlog st' = io)
         \<or> ((c = Exit 0 \<or> c = Exit 1) \<and> rlog st' = io @ slip_stop e sc2)"
proof -
  obtain c st' where rl: "relay_loop e sc2 (go_init e) (events e) (relay_init e sc2 s) = (c, st')"
    by (cases "relay_loop e sc2 (go_init e) (events e) (relay_init e sc2 s)")
  from relay_loop_log[OF rl] obtain io where io: "list_all is_io io"
    "(c = Running \<and> rlog st' = io) \<or> ((c = Exit 0 \<or> c = Exit 1) \<and> rlog st' = io @ slip_stop e sc2)"
    by (auto simp: relay_init_def)
  have "main e = (c, l0 @ rlog st')" using assms rl by (simp add: main_def)
  with io that show thesis by blast
qed

text \<open>
  C3. Claim: teardown executes exactly once before process exit on the normal path and on
  every fatal error path, including a configuration file that cannot be read and a failure
  of link setup. As amended: in every run that reaches the relay loop and ends (on a
  signal, on end-of-stream of host input, on a read or write failure in the relay),
  teardown is executed exactly once, as the last thing before an exit with status 0 or
  1; a run that ends before the relay (no configuration file, no matching record, any
  failure of link setup) exits with status 1 without executing teardown.
\<close>

theorem teardown_once_after_relay:
  "(reaches_relay e \<and> fst (main e) \<noteq> Running \<longrightarrow>
      teardowns (snd (main e)) = 1
      \<and> (\<exists>c pre sc. main e = (Exit c, pre @ slip_stop e sc) \<and> (c = 0 \<or> c = 1)
            \<and> teardowns pre = 0))
   \<and> (\<not> reaches_relay e \<longrightarrow>
        teardowns (snd (main e)) = 0 \<and> (fst (main e) = Exit 1 \<or> fst (main e) = Fault))
   \<and> (fst (main e) = Running \<longrightarrow> teardowns (snd (main e)) = 0)"
proof (cases "login e (sc_init e)")
  case (Inl c)
  with main_login[OF Inl] show ?thesis
    by (auto simp: reaches_relay_def teardowns_def)
next
  case (Inr p)
  obtain sc1 s where lg: "login e (sc_init e) = Inr (sc1, s)" using Inr by (cases p) simp
  obtain l0 r where ss: "slip_start e sc1 = (l0, r)" by (cases "slip_start e sc1")
  show ?thesis
  proof (cases r)
    case (Inl c)
    with main_setup[OF lg ss[unfolded Inl]] lg ss show ?thesis
      by (auto simp: reaches_relay_def teardowns_setup)
  next
    case (Inr sc2)
    have rr: "reaches_relay e" using lg ss Inr by (simp add: reaches_relay_def)
    from main_relay[OF lg ss[unfolded Inr]] obtain c and st' :: relay and io where
      mn: "main e = (c, l0 @ rlog st')" and io: "list_all is_io io"
      and cs: "(c = Running \<and> rlog st' = io)
         \<or> ((c = Exit 0 \<or> c = Exit 1) \<and> rlog st' = io @ slip_stop e sc2)" by blast
    have t0a: "teardowns l0 = 0" by (rule teardowns_slip_start[OF ss[unfolded Inr]])
    have t0b: "teardowns io = 0" by (rule teardowns_io[OF io])
    from cs show ?thesis
    proof
      assume "c = Running \<and> rlog st' = io"
      then have "main e = (Running, l0 @ io)" using mn by simp
      then show ?thesis using rr t0a t0b by (simp add: teardowns_append)
    next
      assume a: "(c = Exit 0 \<or> c = Exit 1) \<and> rlog st' = io @ slip_stop e sc2"
      then obtain n where n: "c = Exit n" "n = 0 \<or> n = 1" by auto
      have me: "main e = (Exit n, (l0 @ io) @ slip_stop e sc2)" using mn a n by simp
      have pre: "teardowns (l0 @ io) = 0" using t0a t0b by (simp add: teardowns_append)
      have one: "teardowns (snd (main e)) = 1"
        unfolding me snd_conv teardowns_append[of "l0 @ io"] pre teardowns_slip_stop by simp
      have ex: "\<exists>c' pre sc. main e = (Exit c', pre @ slip_stop e sc) \<and> (c' = 0 \<or> c' = 1)
            \<and> teardowns pre = 0"
        using me n pre by blast
      have nr: "fst (main e) \<noteq> Running" by (simp add: me)
      from rr one ex nr show ?thesis by blast
    qed
  qed
qed






text \<open>\<^verbatim>\<open>login\<close> depends on the invoking identity, the host stream and the configuration
  file only.\<close>

lemma login_cong:
  "pw_name e = pw_name e' \<Longrightarrow> host_in e = host_in e' \<Longrightarrow> cfg_file e = cfg_file e' \<Longrightarrow>
   login e sc = login e' sc"
proof -
  assume a: "pw_name e = pw_name e'" "host_in e = host_in e'" "cfg_file e = cfg_file e'"
  show ?thesis unfolding login_def a by (rule refl)
qed












section \<open>The commands come from the configuration\<close>

text \<open>
  C7. Every command a run executes, at activation and at deactivation, is the fixed
  format applied to the \<^verbatim>\<open>IFCONFIG\<close> macro, the unit number the kernel returned, and the
  local address, remote address and script of one record of the configuration file: the
  record that the lookup of this run returned. In particular its remote-address argument
  is the \<open>remoteip\<close> field of that record; no string of the host stream enters the
  command but through being equal to that field.
\<close>

theorem commands_from_configuration:
  assumes "System c cmd \<in> set (snd (main e))"
  shows "\<exists>f cfg sc1 s fp.
      cfg_file e = Some f \<and> cfg \<in> set (entries f) \<and> login e (sc_init e) = Inr (sc1, s)
    \<and> getcfgbyid (Some f) None (username sc1) (remoteip sc1) = Inr (Some cfg, fp)
    \<and> cmd = (case c of
               Interface_start \<Rightarrow>
                 fmt_start (IFCONFIG e) (tiocsetd_r e) (cfgentry.localip cfg)
                   (cfgentry.remoteip cfg) (cfgentry.script cfg)
             | Interface_stop \<Rightarrow>
                 fmt_stop (IFCONFIG e) (tiocsetd_r e) (cfgentry.localip cfg)
                   (cfgentry.remoteip cfg) (cfgentry.script cfg))"
proof -
  obtain st l where mn: "main e = (st, l)" by (cases "main e")
  from assms mn have sys: "System c cmd \<in> set l" by simp
  obtain sc1 s where lg: "login e (sc_init e) = Inr (sc1, s)"
  proof (cases "login e (sc_init e)")
    case (Inl c')
    with main_login[OF Inl] mn sys show ?thesis by simp
  next
    case (Inr p)
    with that show ?thesis by (cases p) simp
  qed
  obtain l0 r where ss: "slip_start e sc1 = (l0, r)" by (cases "slip_start e sc1")
  obtain sc2 where r: "r = Inr sc2"
  proof (cases r)
    case (Inl c')
    with main_setup[OF lg ss[unfolded Inl]] mn sys have "setup_only (System c cmd)"
      by (auto simp: list_all_iff)
    then show ?thesis by simp
  next
    case (Inr sc2)
    with that show ?thesis by simp
  qed
  from main_relay[OF lg ss[unfolded r]] obtain c' and st' :: relay and io where
    m2: "main e = (c', l0 @ rlog st')" "list_all is_io io"
      "(c' = Running \<and> rlog st' = io)
         \<or> ((c' = Exit 0 \<or> c' = Exit 1) \<and> rlog st' = io @ slip_stop e sc2)"
    by blast
  from m2(1) mn have "l = l0 @ rlog st'" by simp
  moreover from m2(3) have "rlog st' = io \<or> rlog st' = io @ slip_stop e sc2" by blast
  ultimately have at_relay: "login e (sc_init e) = Inr (sc1, s)"
        "slip_start e sc1 = (l0, Inr sc2)" "l = l0 @ rlog st'" "list_all is_io io"
        "rlog st' = io \<or> rlog st' = io @ slip_stop e sc2"
    using lg ss r m2(2) by simp_all
  from login_strings[OF at_relay(1)] obtain f cfg fp where
    f: "cfg_file e = Some f" "cfg \<in> set (entries f)"
       "getcfgbyid (Some f) None (username sc1) (remoteip sc1) = Inr (Some cfg, fp)"
    and str: "cstr (remoteip sc1) = cfgentry.remoteip cfg"
       "cstr (localip sc1) = cfgentry.localip cfg" "cstr (script sc1) = cfgentry.script cfg"
    by blast
  note ss = slip_start_Inr[OF at_relay(2)]
  from ss have sc2: "remoteip sc2 = remoteip sc1" "localip sc2 = localip sc1"
    "script sc2 = script sc1" "unit sc2 = tiocsetd_r e" by simp_all
  have nio: "System c cmd \<notin> set io"
    using at_relay(4) by (auto simp: list_all_iff)
  from sys at_relay(3,5) nio have "System c cmd \<in> set l0 \<or> System c cmd \<in> set (slip_stop e sc2)"
    by auto
  then have "cmd = (case c of
             Interface_start \<Rightarrow> start_cmd (IFCONFIG e) sc2
           | Interface_stop \<Rightarrow> stop_cmd (IFCONFIG e) sc2)"
    using ss by (auto simp: slip_stop_def interface_stop_def slip_release_def)
  then have "cmd = (case c of
             Interface_start \<Rightarrow>
               fmt_start (IFCONFIG e) (tiocsetd_r e) (cfgentry.localip cfg)
                 (cfgentry.remoteip cfg) (cfgentry.script cfg)
           | Interface_stop \<Rightarrow>
               fmt_stop (IFCONFIG e) (tiocsetd_r e) (cfgentry.localip cfg)
                 (cfgentry.remoteip cfg) (cfgentry.script cfg))"
    by (simp add: start_cmd_def stop_cmd_def sc2 str split: caller.splits)
  with f at_relay(1) show ?thesis by blast
qed

section \<open>Example runs\<close>

text \<open>
  A session as in the example of the specification: the configuration gives \<open>alice\<close> the
  remote address 10.0.0.2 with local address 10.0.0.1 and a script; the host sends the
  address line and three bytes, the link delivers three bytes, and the host then closes
  its stream. The automatic variables start with arbitrary contents.
\<close>

definition ex_sc :: slipconn where
  "ex_sc = \<lparr>masterfd = - 1, slavefd = - 1, unit = - 1, oldldisc = - 1,
     username = replicate 128 CHR ''?'', remoteip = replicate 64 CHR ''?'',
     localip = replicate 64 CHR ''?'', script = replicate 256 CHR ''?''\<rparr>"

definition ex_buf :: buf where
  "ex_buf = \<lparr>len = 7, ptr = 3, data = ''garbage''\<rparr>"

definition ex_ev :: "int set \<Rightarrow> int set \<Rightarrow> event" where
  "ex_ev R W = \<lparr>sel = Sel_ready R W, rd_stdin = 100, rd_link = 100, wr_link = 2,
               wr_stdout = 100, signal = False\<rparr>"

definition ex_cfg_file :: string where
  "ex_cfg_file = ''# user remote local script'' @ [NL]
     @ ''alice 10.0.0.2 10.0.0.1 /etc/vmnet/up.sh'' @ [NL]
     @ ''alice 10.0.0.2 10.0.0.9'' @ [NL]
     @ ''Alice 10.0.0.20 10.0.0.1'' @ [NL]"

definition ex_env :: env where
  "ex_env = \<lparr>IFCONFIG = ''/sbin/ifconfig'', pw_name = Some ''alice'',
     cfg_file = Some ex_cfg_file,
     host_in = map Byte (''10.0.0.2'' @ [NL] @ ''abc''), link_in = map Byte ''xyz'',
     sc_init = ex_sc, stdinbuf_init = ex_buf, stdoutbuf_init = ex_buf,
     getpt_r = 3, grantpt_r = 0, unlockpt_r = 0, ptsname_r_r = 0, open_r = 4,
     tcgetattr_r = 0, tcsetattr_r = 0, tiocgetd_old_r = (0, 0), tiocsetd_r = 0,
     siocsifencap_r = 0, tiocgetd_new_r = (0, N_SLIP), siocgifencap_r = (0, 0),
     tiocsetd_restore_r = 0, go_init = True,
     events = [ex_ev {0} {}, ex_ev {} {3}, ex_ev {3} {3}, ex_ev {} {1}, ex_ev {0} {1}]\<rparr>"


text \<open>The session after \<^verbatim>\<open>login\<close> and after \<^verbatim>\<open>slip_start\<close>.\<close>

definition ex_sc1 :: slipconn where
  "ex_sc1 = ex_sc\<lparr>username := ''alice'' @ replicate 122 NUL @ ''?'',
     remoteip := ''10.0.0.2'' @ NUL # replicate 55 CHR ''?'',
     localip := ''10.0.0.1'' @ replicate 56 NUL,
     script := ''/etc/vmnet/up.sh'' @ replicate 240 NUL\<rparr>"

definition ex_sc2 :: slipconn where
  "ex_sc2 = ex_sc1\<lparr>masterfd := 3, slavefd := 4, oldldisc := 0, unit := 0\<rparr>"

text \<open>The same session when the re-queried line discipline is not \<^verbatim>\<open>N_SLIP\<close>; when the
  invoking identity has no record; when the link delivers bytes and the host closes its
  stream before they are written to it; and when nothing is ready yet.\<close>

definition bad_env :: env where
  "bad_env = ex_env\<lparr>tiocgetd_new_r := (0, 0)\<rparr>"

definition bob_env :: env where
  "bob_env = ex_env\<lparr>pw_name := Some ''bob''\<rparr>"

definition lossy_env :: env where
  "lossy_env = ex_env\<lparr>host_in := map Byte (''10.0.0.2'' @ [NL]),
     events := [ex_ev {3} {}, ex_ev {0} {1}]\<rparr>"

definition idle_env :: env where
  "idle_env = ex_env\<lparr>events := []\<rparr>"



lemma ex_login: "login ex_env ex_sc = Inr (ex_sc1, map Byte ''abc'')"
  by code_simp

lemma bob_login: "login bob_env ex_sc = Inl (Exit 1)"
  by code_simp

lemma lossy_login: "login lossy_env ex_sc = Inr (ex_sc1, [])"
  by code_simp

lemma bad_login: "login bad_env ex_sc = Inr (ex_sc1, map Byte ''abc'')"
  using login_cong[of bad_env ex_env ex_sc] ex_login by (simp add: bad_env_def)

lemma idle_login: "login idle_env ex_sc = Inr (ex_sc1, map Byte ''abc'')"
  using login_cong[of idle_env ex_env ex_sc] ex_login by (simp add: idle_env_def)

lemma ex_slip_start:
  "slip_start ex_env ex_sc1 =
     ([Open 3, Open 4, Tiocsetd 4 N_SLIP, Siocsifencap 4 0,
       System Interface_start (start_cmd ''/sbin/ifconfig'' ex_sc2)], Inr ex_sc2)"
  by (simp add: slip_start_def open_pty_pair_def tty_setup_def slip_setup_def
        interface_start_def ex_env_def ex_sc2_def ex_sc1_def ex_sc_def Let_def)

lemma lossy_slip_start:
  "slip_start lossy_env ex_sc1 =
     ([Open 3, Open 4, Tiocsetd 4 N_SLIP, Siocsifencap 4 0,
       System Interface_start (start_cmd ''/sbin/ifconfig'' ex_sc2)], Inr ex_sc2)"
  by (simp add: slip_start_def open_pty_pair_def tty_setup_def slip_setup_def
        interface_start_def lossy_env_def ex_env_def ex_sc2_def ex_sc1_def ex_sc_def Let_def)

lemma idle_slip_start:
  "slip_start idle_env ex_sc1 =
     ([Open 3, Open 4, Tiocsetd 4 N_SLIP, Siocsifencap 4 0,
       System Interface_start (start_cmd ''/sbin/ifconfig'' ex_sc2)], Inr ex_sc2)"
  by (simp add: slip_start_def open_pty_pair_def tty_setup_def slip_setup_def
        interface_start_def idle_env_def ex_env_def ex_sc2_def ex_sc1_def ex_sc_def Let_def)

lemma bad_slip_start:
  "slip_start bad_env ex_sc1 = ([Open 3, Open 4, Tiocsetd 4 N_SLIP, Siocsifencap 4 0], Inl (Exit 1))"
  by (simp add: slip_start_def open_pty_pair_def tty_setup_def slip_setup_def
        bad_env_def ex_env_def ex_sc1_def ex_sc_def Let_def N_SLIP_def)

lemmas relay_defs = relay_init_def stdin_readable_def link_readable_def link_writable_def
  stdout_writable_def relay_iter_def then_do_def bufread_def bufwrite_def sys_write_def
  readfds_of_def writefds_of_def ex_ev_def ex_buf_def Let_def

lemma ex_sc2_masterfd [simp]: "masterfd ex_sc2 = 3"
  by (simp add: ex_sc2_def)

lemma ex_fields [simp]:
  "sc_init ex_env = ex_sc" "go_init ex_env" "getpt_r ex_env = 3" "IFCONFIG ex_env = ''/sbin/ifconfig''"
  "cfg_file ex_env = Some ex_cfg_file" "tiocsetd_r ex_env = 0"
  by (simp_all add: ex_env_def)

lemma ex_relay_fields:
  "events ex_env = [ex_ev {0} {}, ex_ev {} {3}, ex_ev {3} {3}, ex_ev {} {1}, ex_ev {0} {1}]"
  "stdinbuf_init ex_env = ex_buf" "stdoutbuf_init ex_env = ex_buf"
  "link_in ex_env = map Byte ''xyz''"
  by (simp_all add: ex_env_def)

lemma lossy_fields [simp]:
  "sc_init lossy_env = ex_sc" "go_init lossy_env" "getpt_r lossy_env = 3"
  by (simp_all add: lossy_env_def ex_env_def)

lemma bad_fields [simp]:
  "sc_init bad_env = ex_sc" "snd (tiocgetd_new_r bad_env) = 0"
  by (simp_all add: bad_env_def ex_env_def)

lemma bob_fields [simp]: "sc_init bob_env = ex_sc"
  by (simp add: bob_env_def ex_env_def)

lemma idle_fields [simp]: "sc_init idle_env = ex_sc" "go_init idle_env" "events idle_env = []"
  by (simp_all add: idle_env_def ex_env_def)

lemma ex_relay:
  "fst (relay_loop ex_env ex_sc2 True (events ex_env) (relay_init ex_env ex_sc2 (map Byte ''abc'')))
     = Exit 0
   \<and> rlog (snd (relay_loop ex_env ex_sc2 True (events ex_env)
                  (relay_init ex_env ex_sc2 (map Byte ''abc''))))
     = [Read 0 ''abc'', Write 3 ''ab'', Read 3 ''xyz'', Write 3 ''c'', Write 1 ''xyz'', Read 0 []]
         @ slip_stop ex_env ex_sc2"
  by (simp add: relay_defs ex_env_def)

lemma lossy_relay:
  "fst (relay_loop lossy_env ex_sc2 True (events lossy_env) (relay_init lossy_env ex_sc2 []))
     = Exit 0
   \<and> rlog (snd (relay_loop lossy_env ex_sc2 True (events lossy_env)
                  (relay_init lossy_env ex_sc2 [])))
     = [Read 3 ''xyz'', Read 0 []] @ slip_stop lossy_env ex_sc2"
  by (simp add: relay_defs lossy_env_def ex_env_def)

lemma ex_main:
  "main ex_env =
     (Exit 0,
      [Open 3, Open 4, Tiocsetd 4 N_SLIP, Siocsifencap 4 0,
       System Interface_start (start_cmd ''/sbin/ifconfig'' ex_sc2),
       Read 0 ''abc'', Write 3 ''ab'', Read 3 ''xyz'', Write 3 ''c'', Write 1 ''xyz'', Read 0 []]
        @ slip_stop ex_env ex_sc2)"
  using ex_relay by (simp add: main_def ex_login ex_slip_start case_prod_beta)

lemma lossy_main:
  "main lossy_env =
     (Exit 0,
      [Open 3, Open 4, Tiocsetd 4 N_SLIP, Siocsifencap 4 0,
       System Interface_start (start_cmd ''/sbin/ifconfig'' ex_sc2),
       Read 3 ''xyz'', Read 0 []] @ slip_stop lossy_env ex_sc2)"
  using lossy_relay by (simp add: main_def lossy_login lossy_slip_start case_prod_beta)

lemma bad_main: "main bad_env = (Exit 1, [Open 3, Open 4, Tiocsetd 4 N_SLIP, Siocsifencap 4 0])"
  by (simp add: main_def bad_login bad_slip_start)

lemma bob_main: "main bob_env = (Exit 1, [])"
  by (simp add: main_def bob_login)

lemma idle_main:
  "main idle_env =
     (Running, [Open 3, Open 4, Tiocsetd 4 N_SLIP, Siocsifencap 4 0,
                System Interface_start (start_cmd ''/sbin/ifconfig'' ex_sc2)])"
  by (simp add: main_def idle_login idle_slip_start relay_init_def)

lemma ex_reaches: "reaches_relay ex_env" "reaches_relay lossy_env" "reaches_relay idle_env"
  "\<not> reaches_relay bad_env" "\<not> reaches_relay bob_env"
  by (simp_all add: reaches_relay_def ex_login ex_slip_start lossy_login lossy_slip_start
        idle_login idle_slip_start bad_login bad_slip_start bob_login)

lemma ex_entries:
  "entries ex_cfg_file =
     [\<lparr>cfgentry.username = ''alice'', remoteip = ''10.0.0.2'', localip = ''10.0.0.1'',
       script = ''/etc/vmnet/up.sh''\<rparr>,
      \<lparr>cfgentry.username = ''alice'', remoteip = ''10.0.0.2'', localip = ''10.0.0.9'',
       script = []\<rparr>,
      \<lparr>cfgentry.username = ''Alice'', remoteip = ''10.0.0.20'', localip = ''10.0.0.1'',
       script = []\<rparr>]"
  by code_simp

lemma ex_cstr: "cstr ''alice'' = ''alice''" "cstr ''10.0.0.2'' = ''10.0.0.2''"
  "cstr ''Alice'' = ''Alice''" "cstr ''10.0.0.20'' = ''10.0.0.20''"
  by (simp_all add: cstr_def NUL_def)

text \<open>Witnesses and counterexamples.\<close>

theorem getcfgbyid_first_match_witness:
  "(\<exists>fp. getcfgbyid (Some ex_cfg_file) None ''alice'' ''10.0.0.2''
          = Inr (Some (entries ex_cfg_file ! 0), fp))
   \<and> cfgentry.localip (entries ex_cfg_file ! 0) = ''10.0.0.1''
   \<and> cfgentry.username (entries ex_cfg_file ! 1) = ''alice''
   \<and> cfgentry.remoteip (entries ex_cfg_file ! 1) = ''10.0.0.2''
   \<and> (\<exists>fp. getcfgbyid (Some ex_cfg_file) None ''Alice'' ''10.0.0.2'' = Inr (None, fp))
   \<and> (\<exists>fp. getcfgbyid (Some ex_cfg_file) None ''alice'' ''10.0.0.20'' = Inr (None, fp))"
proof -
  have 1: "\<exists>fp. getcfgbyid (Some ex_cfg_file) None ''alice'' ''10.0.0.2''
          = Inr (Some (entries ex_cfg_file ! 0), fp)"
  proof -
    from getcfgbyid_first_match[of ex_cfg_file "''alice''" "''10.0.0.2''"]
    obtain found fp where g: "getcfgbyid (Some ex_cfg_file) None ''alice'' ''10.0.0.2''
          = Inr (found, fp)"
      and c: "case found of
          None \<Rightarrow> \<forall>cfg \<in> set (entries ex_cfg_file).
                   \<not> (cfgentry.username cfg = cstr ''alice'' \<and> cfgentry.remoteip cfg = cstr ''10.0.0.2'')
        | Some cfg \<Rightarrow>
            \<exists>i < length (entries ex_cfg_file). entries ex_cfg_file ! i = cfg
               \<and> cfgentry.username cfg = cstr ''alice'' \<and> cfgentry.remoteip cfg = cstr ''10.0.0.2''
               \<and> (\<forall>j < i. \<not> (cfgentry.username (entries ex_cfg_file ! j) = cstr ''alice''
                             \<and> cfgentry.remoteip (entries ex_cfg_file ! j) = cstr ''10.0.0.2''))"
      by blast
    have m0: "cfgentry.username (entries ex_cfg_file ! 0) = cstr ''alice''
        \<and> cfgentry.remoteip (entries ex_cfg_file ! 0) = cstr ''10.0.0.2''"
      by (simp add: ex_entries ex_cstr)
    have "found = Some (entries ex_cfg_file ! 0)"
    proof (cases found)
      case None
      with c m0 show ?thesis by (auto simp: ex_entries)
    next
      case (Some cfg)
      with c obtain i where i: "entries ex_cfg_file ! i = cfg"
        "\<forall>j < i. \<not> (cfgentry.username (entries ex_cfg_file ! j) = cstr ''alice''
                             \<and> cfgentry.remoteip (entries ex_cfg_file ! j) = cstr ''10.0.0.2'')"
        by auto
      from i(2) m0 have "i = 0" by (cases i) auto
      with i(1) Some show ?thesis by simp
    qed
    with g show ?thesis by blast
  qed
  have 2: "\<exists>fp. getcfgbyid (Some ex_cfg_file) None ''Alice'' ''10.0.0.2'' = Inr (None, fp)"
    using getcfgbyid_find[of ex_cfg_file "''Alice''" "''10.0.0.2''"]
    by (simp add: ex_entries matches_def streq_def ex_cstr)
  have 3: "\<exists>fp. getcfgbyid (Some ex_cfg_file) None ''alice'' ''10.0.0.20'' = Inr (None, fp)"
    using getcfgbyid_find[of ex_cfg_file "''alice''" "''10.0.0.20''"]
    by (simp add: ex_entries matches_def streq_def ex_cstr)
  from 1 2 3 show ?thesis by (simp add: ex_entries)
qed


lemma ex_log_io:
  "read_from fd (l @ slip_stop e sc) = read_from fd l"
  "written_to fd (l @ slip_stop e sc) = written_to fd l"
  by (simp_all add: read_from_append written_to_append)

theorem relay_fidelity_witness:
  "getpt_r ex_env \<noteq> 0 \<and> getpt_r ex_env \<noteq> 1
   \<and> login ex_env (sc_init ex_env) = Inr (ex_sc1, map Byte ''abc'')
   \<and> (\<exists>l0. slip_start ex_env ex_sc1 = (l0, Inr ex_sc2))
   \<and> Read 0 [] \<in> set (snd (main ex_env))
   \<and> after_address ex_env = map Byte ''abc''
   \<and> written_to (getpt_r ex_env) (snd (main ex_env)) = ''abc''"
proof -
  have h1: "getpt_r ex_env \<noteq> 0" and h2: "getpt_r ex_env \<noteq> 1" by simp_all
  have h3: "login ex_env (sc_init ex_env) = Inr (ex_sc1, map Byte ''abc'')"
    by (simp add: ex_login)
  have eof: "Read 0 [] \<in> set (snd (main ex_env))" by (simp add: ex_main)
  have b: "bytes_of (map Byte ''abc'') = ''abc''" by (simp add: bytes_of_def)
  from relay_fidelity[OF h1 h2 h3 ex_slip_start] eof b
  have "after_address ex_env = map Byte ''abc''"
    "written_to (getpt_r ex_env) (snd (main ex_env)) = ''abc''" by simp_all
  with h1 h2 h3 eof ex_slip_start show ?thesis by blast
qed

text \<open>The link delivers three bytes, the relay reads them, and the host closes its
  stream: the process exits with status 0, no read or write has failed, and the three
  bytes were never written to host output.\<close>

theorem relay_faithful_counterexample:
  "fst (main lossy_env) = Exit 0 \<and> read_from (getpt_r lossy_env) (snd (main lossy_env)) = ''xyz''
   \<and> written_to 1 (snd (main lossy_env)) = [] \<and> \<not> relay_faithful lossy_env"
  by (simp add: relay_faithful_def lossy_main ex_log_io)

theorem teardown_once_after_relay_witness:
  "reaches_relay ex_env \<and> fst (main ex_env) \<noteq> Running \<and> teardowns (snd (main ex_env)) = 1
   \<and> \<not> reaches_relay bob_env \<and> fst (main bob_env) = Exit 1 \<and> teardowns (snd (main bob_env)) = 0
   \<and> fst (main idle_env) = Running \<and> teardowns (snd (main idle_env)) = 0"
proof -
  have a: "fst (main ex_env) \<noteq> Running" by (simp add: ex_main)
  have b: "fst (main bob_env) = Exit 1" by (simp add: bob_main)
  have c: "fst (main idle_env) = Running" by (simp add: idle_main)
  from teardown_once_after_relay[of ex_env] ex_reaches(1) a
  have 1: "teardowns (snd (main ex_env)) = 1" by blast
  from teardown_once_after_relay[of bob_env] ex_reaches(5)
  have 2: "teardowns (snd (main bob_env)) = 0" by blast
  from teardown_once_after_relay[of idle_env] c
  have 3: "teardowns (snd (main idle_env)) = 0" by blast
  from ex_reaches a b c 1 2 3 show ?thesis by blast
qed

text \<open>Link setup fails at the verification of the line discipline: the process exits
  with status 1 and teardown has not been executed.\<close>

theorem teardown_not_on_setup_failure_counterexample:
  "snd (tiocgetd_new_r bad_env) \<noteq> N_SLIP \<and> fst (main bad_env) = Exit 1
   \<and> teardowns (snd (main bad_env)) = 0"
  by (simp add: bad_main teardowns_def N_SLIP_def)

lemma ex_points:
  "1 < length (main_points ex_env)"
  "rfds (main_points ex_env ! 1) = {3}"
  "rlog (main_points ex_env ! 1) = [Read 0 ''abc'']"
  "pending (stdinbuf (main_points ex_env ! 1)) = ''abc''"
  by (simp_all add: main_points_def ex_login ex_slip_start iter_points_def ex_relay_fields
        relay_defs pending_def)

theorem relay_direction_states_witness:
  "getpt_r ex_env \<noteq> 0 \<and> getpt_r ex_env \<noteq> 1
   \<and> main_points ex_env ! 1 \<in> set (main_points ex_env)
   \<and> 0 \<notin> rfds (main_points ex_env ! 1)
   \<and> pending (stdinbuf (main_points ex_env ! 1)) = ''abc''
   \<and> pending_write 0 (getpt_r ex_env) (stdinbuf (main_points ex_env ! 1)) (main_points ex_env ! 1)
   \<and> \<not> idle_reading 0 (getpt_r ex_env) (stdinbuf (main_points ex_env ! 1)) (main_points ex_env ! 1)"
proof -
  have h1: "getpt_r ex_env \<noteq> 0" and h2: "getpt_r ex_env \<noteq> 1" by simp_all
  have m: "main_points ex_env ! 1 \<in> set (main_points ex_env)"
    using ex_points(1) by (rule nth_mem)
  have r: "0 \<notin> rfds (main_points ex_env ! 1)" unfolding ex_points(2) by simp
  then have ni: "\<not> idle_reading 0 (getpt_r ex_env) (stdinbuf (main_points ex_env ! 1))
                    (main_points ex_env ! 1)"
    by (simp add: idle_reading_def)
  from relay_direction_states[OF h1 h2] m ni
  have "pending_write 0 (getpt_r ex_env) (stdinbuf (main_points ex_env ! 1))
          (main_points ex_env ! 1)" by blast
  with h1 h2 m r ni ex_points(4) show ?thesis by blast
qed


lemma ex_cmds:
  "start_cmd ''/sbin/ifconfig'' ex_sc2
     = fmt_start ''/sbin/ifconfig'' 0 ''10.0.0.1'' ''10.0.0.2'' ''/etc/vmnet/up.sh''"
  "stop_cmd ''/sbin/ifconfig'' ex_sc2
     = fmt_stop ''/sbin/ifconfig'' 0 ''10.0.0.1'' ''10.0.0.2'' ''/etc/vmnet/up.sh''"
  by (simp_all add: start_cmd_def stop_cmd_def ex_sc2_def ex_sc1_def ex_sc_def cstr_def NUL_def)









theorem slip_setup_verified_witness:
  "slip_setup ex_env (ex_sc1\<lparr>masterfd := 3, slavefd := 4\<rparr>)
     = ([Tiocsetd 4 N_SLIP, Siocsifencap 4 0], Inr ex_sc2)
   \<and> snd (tiocgetd_new_r ex_env) = N_SLIP \<and> snd (siocgifencap_r ex_env) = 0
   \<and> (\<exists>l. slip_start ex_env ex_sc1 = (l, Inr ex_sc2))
   \<and> snd (tiocgetd_new_r bad_env) \<noteq> N_SLIP
   \<and> login bad_env (sc_init bad_env) = Inr (ex_sc1, map Byte ''abc'')
   \<and> snd (slip_start bad_env ex_sc1) = Inl (Exit 1)
   \<and> fst (main bad_env) = Exit 1 \<and> list_all setup_only (snd (main bad_env))"
proof -
  have h1: "slip_setup ex_env (ex_sc1\<lparr>masterfd := 3, slavefd := 4\<rparr>)
     = ([Tiocsetd 4 N_SLIP, Siocsifencap 4 0], Inr ex_sc2)"
    by (simp add: slip_setup_def ex_env_def ex_sc2_def ex_sc1_def ex_sc_def Let_def)
  note c1 = slip_setup_verified[where e=ex_env and sc="ex_sc1\<lparr>masterfd := 3, slavefd := 4\<rparr>"
      and l="[Tiocsetd 4 N_SLIP, Siocsifencap 4 0]" and sc'=ex_sc2,
      THEN conjunct1, rule_format, OF h1]
  note c2 = slip_setup_verified[where e=ex_env and sc=ex_sc1 and sc''=ex_sc2,
      THEN conjunct2, THEN conjunct1, rule_format, OF ex_slip_start]
  have h3: "snd (tiocgetd_new_r bad_env) \<noteq> N_SLIP \<or> snd (siocgifencap_r bad_env) \<noteq> 0"
    by (simp add: N_SLIP_def)
  note c3 = slip_setup_verified[where e=bad_env and sc=ex_sc1,
      THEN conjunct2, THEN conjunct2, rule_format, OF h3]
  have lb: "login bad_env (sc_init bad_env) = Inr (ex_sc1, map Byte ''abc'')"
    by (simp add: bad_login)
  from c3 lb have "snd (slip_start bad_env ex_sc1) = Inl (Exit 1)"
    "fst (main bad_env) = Exit 1" "list_all setup_only (snd (main bad_env))"
    by blast+
  with h1 c1 c2 ex_slip_start h3 lb show ?thesis by (simp add: N_SLIP_def)
qed

theorem commands_from_configuration_witness:
  "System Interface_stop
      (fmt_stop ''/sbin/ifconfig'' 0 ''10.0.0.1'' ''10.0.0.2'' ''/etc/vmnet/up.sh'')
     \<in> set (snd (main ex_env))
   \<and> (\<exists>f cfg sc1 s fp.
        cfg_file ex_env = Some f \<and> cfg \<in> set (entries f)
      \<and> login ex_env (sc_init ex_env) = Inr (sc1, s)
      \<and> getcfgbyid (Some f) None (username sc1) (remoteip sc1) = Inr (Some cfg, fp)
      \<and> fmt_stop ''/sbin/ifconfig'' 0 ''10.0.0.1'' ''10.0.0.2'' ''/etc/vmnet/up.sh''
          = fmt_stop (IFCONFIG ex_env) (tiocsetd_r ex_env) (cfgentry.localip cfg)
              (cfgentry.remoteip cfg) (cfgentry.script cfg))"
proof -
  have h: "System Interface_stop
      (fmt_stop ''/sbin/ifconfig'' 0 ''10.0.0.1'' ''10.0.0.2'' ''/etc/vmnet/up.sh'')
     \<in> set (snd (main ex_env))"
    by (simp add: ex_main slip_stop_def interface_stop_def ex_cmds)
  from commands_from_configuration[OF h] h show ?thesis by simp
qed

end
